theory Spec2Isabelle
  imports Main "HOL-Library.Multiset" "HOL-Library.AList"
begin

section \<open>Values of the host language\<close>

text \<open>
  The library \<^verbatim>\<open>q.js\<close> works on JavaScript values. The embedding keeps the
  values the library can tell apart:
  \<^item> numbers are \<open>NaN\<close>, the two infinities and the integers among the host's finite
    numbers (doubles); a sum is rounded as the host rounds it; fractions are not
    modelled;
  \<^item> strings are lists of code units;
  \<^item> a record (a plain object) is a reference \<open>Ref a\<close> into a store of property lists,
    because the library allocates records and writes to them (\<^verbatim>\<open>Q.mixin\<close>) and the
    host compares two objects by identity;
  \<^item> an array that occurs as a value carries a tag, its identity, and its elements; the
    library only reads the arrays it is given, so their contents never change;
  \<^item> a sequence passed as the \<^verbatim>\<open>list\<close> argument of an operation is the HOL list
    of its elements.
  Properties inherited from the host's prototypes (methods such as \<^verbatim>\<open>toString\<close>)
  are not values of the model: a property that an object does not own reads as
  \<open>Undefined\<close>. The records of a store are plain: their prototype is
  \<^verbatim>\<open>Object.prototype\<close>. User-supplied functions read the store and do not write
  to it.
\<close>

type_synonym addr = nat

datatype jsnum = NaN | NegInf | Fin int | PosInf

datatype jsval =
    Undefined
  | Null
  | Bool bool
  | Num jsnum
  | Str string
  | Ref addr
  | Arr nat "jsval list"

datatype error = TypeError | Thrown jsval

type_synonym props = "(string \<times> jsval) list"

type_synonym heap = "props list"

text \<open>A user-supplied function: it reads the store, returns a value or throws.\<close>

type_synonym callable = "heap \<Rightarrow> jsval \<Rightarrow> error + jsval"

subsection \<open>Conversion to strings\<close>

definition digit_char :: "nat \<Rightarrow> char" where
  "digit_char n = ''0123456789'' ! (n mod 10)"

function show_nat :: "nat \<Rightarrow> string" where
  "show_nat n = (if n < 10 then [digit_char n] else show_nat (n div 10) @ [digit_char n])"
  by pat_completeness auto
termination
  by (relation "measure id") auto

declare show_nat.simps [simp del]

definition show_int :: "int \<Rightarrow> string" where
  "show_int i = (if i < 0 then CHR ''-'' # show_nat (nat (- i)) else show_nat (nat i))"

fun join_comma :: "string list \<Rightarrow> string" where
  "join_comma [] = []"
| "join_comma [s] = s"
| "join_comma (s # t # ss) = s @ CHR '','' # join_comma (t # ss)"

text \<open>
  \<^verbatim>\<open>ToString\<close>: an integer prints in decimal (as the host does below \<open>10^21\<close>),
  a record prints as \<^verbatim>\<open>[object Object]\<close>, an array as its elements joined by
  commas, where \<^verbatim>\<open>undefined\<close> and \<^verbatim>\<open>null\<close> elements print as nothing.
\<close>

fun to_str :: "jsval \<Rightarrow> string" where
  "to_str Undefined = ''undefined''"
| "to_str Null = ''null''"
| "to_str (Bool b) = (if b then ''true'' else ''false'')"
| "to_str (Num NaN) = ''NaN''"
| "to_str (Num NegInf) = ''-Infinity''"
| "to_str (Num (Fin i)) = show_int i"
| "to_str (Num PosInf) = ''Infinity''"
| "to_str (Str s) = s"
| "to_str (Ref a) = ''[object Object]''"
| "to_str (Arr t xs) =
     join_comma (map (\<lambda>x. if x = Undefined \<or> x = Null then [] else to_str x) xs)"

text \<open>\<^verbatim>\<open>ToPrimitive\<close>: objects and arrays become their strings.\<close>

fun to_primitive :: "jsval \<Rightarrow> jsval" where
  "to_primitive (Ref a) = Str (to_str (Ref a))"
| "to_primitive (Arr t xs) = Str (to_str (Arr t xs))"
| "to_primitive v = v"

subsection \<open>Conversion to numbers\<close>

definition is_space :: "char \<Rightarrow> bool" where
  "is_space c = (c \<in> set [CHR 0x20, CHR 0x09, CHR 0x0A, CHR 0x0B, CHR 0x0C, CHR 0x0D])"

definition trim :: "string \<Rightarrow> string" where
  "trim s = rev (dropWhile is_space (rev (dropWhile is_space s)))"

definition is_digit :: "char \<Rightarrow> bool" where
  "is_digit c = (48 \<le> (of_char c :: nat) \<and> (of_char c :: nat) \<le> 57)"

definition digits_val :: "string \<Rightarrow> nat" where
  "digits_val s = foldl (\<lambda>n c. 10 * n + (of_char c - 48)) 0 s"

definition all_digits :: "string \<Rightarrow> bool" where
  "all_digits s = (s \<noteq> [] \<and> list_all is_digit s)"

text \<open>
  \<^verbatim>\<open>ToNumber\<close> of a string, between leading and trailing white space (the ASCII
  one here): blank is \<open>0\<close>, a signed decimal integer is its value, and the infinities
  are spelled \<^verbatim>\<open>Infinity\<close>. Every other string is \<open>NaN\<close> here; the strings that
  spell a fraction, an exponent or another radix lie outside the modelled numbers.
\<close>

definition str_to_num :: "string \<Rightarrow> jsnum" where
  "str_to_num s =
     (case trim s of
        [] \<Rightarrow> Fin 0
      | c # cs \<Rightarrow>
          if c = CHR ''-'' then
            (if cs = ''Infinity'' then NegInf
             else if all_digits cs then Fin (- int (digits_val cs)) else NaN)
          else if c = CHR ''+'' then
            (if cs = ''Infinity'' then PosInf
             else if all_digits cs then Fin (int (digits_val cs)) else NaN)
          else if c # cs = ''Infinity'' then PosInf
          else if all_digits (c # cs) then Fin (int (digits_val (c # cs)))
          else NaN)"

fun to_number :: "jsval \<Rightarrow> jsnum" where
  "to_number Undefined = NaN"
| "to_number Null = Fin 0"
| "to_number (Bool b) = Fin (if b then 1 else 0)"
| "to_number (Num n) = n"
| "to_number (Str s) = str_to_num s"
| "to_number (Ref a) = str_to_num (to_str (Ref a))"
| "to_number (Arr t xs) = str_to_num (to_str (Arr t xs))"

subsection \<open>Truthiness and the comparison operators\<close>

fun truthy :: "jsval \<Rightarrow> bool" where
  "truthy Undefined = False"
| "truthy Null = False"
| "truthy (Bool b) = b"
| "truthy (Num NaN) = False"
| "truthy (Num NegInf) = True"
| "truthy (Num (Fin i)) = (i \<noteq> 0)"
| "truthy (Num PosInf) = True"
| "truthy (Str s) = (s \<noteq> [])"
| "truthy (Ref a) = True"
| "truthy (Arr t xs) = True"

text \<open>Numbers compare as on the extended number line; \<open>NaN\<close> compares with nothing.\<close>

fun num_lt :: "jsnum \<Rightarrow> jsnum \<Rightarrow> bool" where
  "num_lt NaN n = False"
| "num_lt m NaN = False"
| "num_lt m NegInf = False"
| "num_lt NegInf n = True"
| "num_lt PosInf n = False"
| "num_lt (Fin i) (Fin j) = (i < j)"
| "num_lt (Fin i) PosInf = True"

fun num_eq :: "jsnum \<Rightarrow> jsnum \<Rightarrow> bool" where
  "num_eq NaN n = False"
| "num_eq m n = (m = n)"

text \<open>Strings compare code unit by code unit.\<close>

fun str_lt :: "string \<Rightarrow> string \<Rightarrow> bool" where
  "str_lt [] [] = False"
| "str_lt [] (d # t) = True"
| "str_lt (c # s) [] = False"
| "str_lt (c # s) (d # t) =
     (if c = d then str_lt s t else (of_char c :: nat) < of_char d)"

text \<open>
  The operator \<^verbatim>\<open><\<close>: both operands become primitives; two strings compare as
  strings, anything else as numbers, and a comparison with \<open>NaN\<close> is false.
\<close>

definition js_lt :: "jsval \<Rightarrow> jsval \<Rightarrow> bool" where
  "js_lt a b =
     (case (to_primitive a, to_primitive b) of
        (Str s, Str t) \<Rightarrow> str_lt s t
      | (p, q) \<Rightarrow> num_lt (to_number p) (to_number q))"

definition js_gt :: "jsval \<Rightarrow> jsval \<Rightarrow> bool" where
  "js_gt a b = js_lt b a"

text \<open>
  The operator \<^verbatim>\<open>==\<close>. A boolean operand is first replaced by its number; two
  references are equal when they are the same object; \<^verbatim>\<open>null\<close> and
  \<^verbatim>\<open>undefined\<close> equal each other and nothing else; an object against a number or a
  string is compared through its primitive; a number against a string through the
  string's number.
\<close>

fun unbool :: "jsval \<Rightarrow> jsval" where
  "unbool (Bool b) = Num (Fin (if b then 1 else 0))"
| "unbool v = v"

fun prim_eq :: "jsval \<Rightarrow> jsval \<Rightarrow> bool" where
  "prim_eq (Num x) (Num y) = num_eq x y"
| "prim_eq (Str s) (Str t) = (s = t)"
| "prim_eq (Num x) (Str t) = num_eq x (str_to_num t)"
| "prim_eq (Str s) (Num y) = num_eq (str_to_num s) y"
| "prim_eq _ _ = False"

fun nullish :: "jsval \<Rightarrow> bool" where
  "nullish Undefined = True"
| "nullish Null = True"
| "nullish _ = False"

fun is_object :: "jsval \<Rightarrow> bool" where
  "is_object (Ref a) = True"
| "is_object (Arr t xs) = True"
| "is_object _ = False"

fun same_object :: "jsval \<Rightarrow> jsval \<Rightarrow> bool" where
  "same_object (Ref a) (Ref b) = (a = b)"
| "same_object (Arr s xs) (Arr t ys) = (s = t)"
| "same_object _ _ = False"

definition loose_eq :: "jsval \<Rightarrow> jsval \<Rightarrow> bool" where
  "loose_eq a b =
     (let x = unbool a; y = unbool b in
      if nullish x \<or> nullish y then nullish x \<and> nullish y
      else if is_object x \<and> is_object y then same_object x y
      else prim_eq (to_primitive x) (to_primitive y))"

subsection \<open>Reading properties\<close>

text \<open>An address that the store does not hold reads as a record without entries.\<close>

definition props_of :: "heap \<Rightarrow> addr \<Rightarrow> props" where
  "props_of h a = (if a < length h then h ! a else [])"

definition lookup :: "props \<Rightarrow> string \<Rightarrow> jsval" where
  "lookup ps k = (case map_of ps k of None \<Rightarrow> Undefined | Some v \<Rightarrow> v)"

definition index_of :: "string \<Rightarrow> nat option" where
  "index_of p = (if all_digits p \<and> show_nat (digits_val p) = p then Some (digits_val p) else None)"

definition arr_prop :: "jsval list \<Rightarrow> string \<Rightarrow> jsval" where
  "arr_prop xs p =
     (if p = ''length'' then Num (Fin (int (length xs)))
      else case index_of p of
             None \<Rightarrow> Undefined
           | Some i \<Rightarrow> if i < length xs then xs ! i else Undefined)"

definition str_prop :: "string \<Rightarrow> string \<Rightarrow> jsval" where
  "str_prop s p =
     (if p = ''length'' then Num (Fin (int (length s)))
      else case index_of p of
             None \<Rightarrow> Undefined
           | Some i \<Rightarrow> if i < length s then Str [s ! i] else Undefined)"

text \<open>
  \<^verbatim>\<open>obj[p]\<close>: reading a property of \<^verbatim>\<open>undefined\<close> or \<^verbatim>\<open>null\<close> throws a
  \<^verbatim>\<open>TypeError\<close>; a missing property reads as \<^verbatim>\<open>undefined\<close>.
\<close>

fun get_prop :: "heap \<Rightarrow> jsval \<Rightarrow> string \<Rightarrow> error + jsval" where
  "get_prop h Undefined p = Inl TypeError"
| "get_prop h Null p = Inl TypeError"
| "get_prop h (Ref a) p = Inr (lookup (props_of h a) p)"
| "get_prop h (Arr t xs) p = Inr (arr_prop xs p)"
| "get_prop h (Str s) p = Inr (str_prop s p)"
| "get_prop h (Bool b) p = Inr Undefined"
| "get_prop h (Num n) p = Inr Undefined"

text \<open>The keys a \<^verbatim>\<open>for (key in obj)\<close> loop visits, in the order the object lists them.\<close>

fun enum_keys :: "heap \<Rightarrow> jsval \<Rightarrow> string list" where
  "enum_keys h (Ref a) = map fst (props_of h a)"
| "enum_keys h (Arr t xs) = map show_nat [0..<length xs]"
| "enum_keys h (Str s) = map show_nat [0..<length s]"
| "enum_keys h v = []"

text \<open>\<^verbatim>\<open>list[i]\<close> on a sequence: \<^verbatim>\<open>undefined\<close> beyond its end.\<close>

definition nth_or_undef :: "jsval list \<Rightarrow> nat \<Rightarrow> jsval" where
  "nth_or_undef xs i = (if i < length xs then xs ! i else Undefined)"

section \<open>The library\<close>

subsection \<open>Key extraction: \<^verbatim>\<open>Q.field\<close>\<close>

text \<open>
  \<^verbatim>\<open>Q.field(property)\<close>, the one-argument form, which is the form the operations
  use: the function that reads the property.
\<close>

definition Q_field :: "string \<Rightarrow> callable" where
  "Q_field property = (\<lambda>h obj. get_prop h obj property)"

text \<open>
  A key specifier is a function or a field name; \<^verbatim>\<open>Q.min\<close>, \<^verbatim>\<open>Q.max\<close> and
  \<^verbatim>\<open>Q.group\<close> resolve it with
  \<^verbatim>\<open>typeof f == 'function' ? f : Q.field(f)\<close>.
\<close>

datatype keyspec = KFun callable | KField string

fun key_fn :: "keyspec \<Rightarrow> callable" where
  "key_fn (KFun f) = f"
| "key_fn (KField p) = Q_field p"

subsection \<open>\<^verbatim>\<open>Q.min\<close> and \<^verbatim>\<open>Q.max\<close>\<close>

fun min_loop :: "heap \<Rightarrow> callable \<Rightarrow> jsval list \<Rightarrow> jsval \<Rightarrow> jsval \<Rightarrow> error + jsval" where
  "min_loop h fn [] item res = Inr item"
| "min_loop h fn (x # xs) item res =
     (case fn h x of
        Inl e \<Rightarrow> Inl e
      | Inr current \<Rightarrow>
          if js_lt current res then min_loop h fn xs x current
          else min_loop h fn xs item res)"

definition Q_min :: "heap \<Rightarrow> keyspec \<Rightarrow> jsval list \<Rightarrow> error + jsval" where
  "Q_min h f list =
     (let fn = key_fn f; item = nth_or_undef list 0 in
      case fn h (nth_or_undef list 0) of
        Inl e \<Rightarrow> Inl e
      | Inr res \<Rightarrow> min_loop h fn list item res)"

fun max_loop :: "heap \<Rightarrow> callable \<Rightarrow> jsval list \<Rightarrow> jsval \<Rightarrow> jsval \<Rightarrow> error + jsval" where
  "max_loop h fn [] item res = Inr item"
| "max_loop h fn (x # xs) item res =
     (case fn h x of
        Inl e \<Rightarrow> Inl e
      | Inr current \<Rightarrow>
          if js_gt current res then max_loop h fn xs x current
          else max_loop h fn xs item res)"

definition Q_max :: "heap \<Rightarrow> keyspec \<Rightarrow> jsval list \<Rightarrow> error + jsval" where
  "Q_max h f list =
     (let fn = key_fn f; item = nth_or_undef list 0 in
      case fn h (nth_or_undef list 0) of
        Inl e \<Rightarrow> Inl e
      | Inr res \<Rightarrow> max_loop h fn list item res)"

subsection \<open>Predicates: \<^verbatim>\<open>Q.mold\<close>, \<^verbatim>\<open>Q.single\<close>, \<^verbatim>\<open>Q.filter\<close>\<close>

text \<open>
  \<^verbatim>\<open>Q.mold(spec)\<close> visits the keys of \<^verbatim>\<open>spec\<close> and answers \<^verbatim>\<open>false\<close> at the
  first key where \<^verbatim>\<open>spec[key] != obj[key]\<close>.
\<close>

fun mold_loop :: "heap \<Rightarrow> jsval \<Rightarrow> jsval \<Rightarrow> string list \<Rightarrow> error + jsval" where
  "mold_loop h spec obj [] = Inr (Bool True)"
| "mold_loop h spec obj (k # ks) =
     (case get_prop h spec k of
        Inl e \<Rightarrow> Inl e
      | Inr a \<Rightarrow>
          (case get_prop h obj k of
             Inl e \<Rightarrow> Inl e
           | Inr b \<Rightarrow>
               if \<not> loose_eq a b then Inr (Bool False) else mold_loop h spec obj ks))"

definition Q_mold :: "jsval \<Rightarrow> callable" where
  "Q_mold spec = (\<lambda>h obj. mold_loop h spec obj (enum_keys h spec))"

text \<open>
  A matcher is a function or a specification object, resolved with
  \<^verbatim>\<open>typeof f == 'function' ? f : Q.mold(f)\<close>.
\<close>

datatype matcher = PFun callable | PSpec jsval

fun pred_fn :: "matcher \<Rightarrow> callable" where
  "pred_fn (PFun f) = f"
| "pred_fn (PSpec s) = Q_mold s"

fun single_loop :: "heap \<Rightarrow> callable \<Rightarrow> jsval list \<Rightarrow> error + jsval" where
  "single_loop h fn [] = Inr Undefined"
| "single_loop h fn (x # xs) =
     (case fn h x of
        Inl e \<Rightarrow> Inl e
      | Inr b \<Rightarrow> if truthy b then Inr x else single_loop h fn xs)"

definition Q_single :: "heap \<Rightarrow> matcher \<Rightarrow> jsval list \<Rightarrow> error + jsval" where
  "Q_single h f list = single_loop h (pred_fn f) list"

fun filter_loop :: "heap \<Rightarrow> callable \<Rightarrow> jsval list \<Rightarrow> jsval list \<Rightarrow> error + jsval list" where
  "filter_loop h fn [] res = Inr res"
| "filter_loop h fn (x # xs) res =
     (case fn h x of
        Inl e \<Rightarrow> Inl e
      | Inr b \<Rightarrow> filter_loop h fn xs (if truthy b then res @ [x] else res))"

definition Q_filter :: "heap \<Rightarrow> matcher \<Rightarrow> jsval list \<Rightarrow> error + jsval list" where
  "Q_filter h f list = filter_loop h (pred_fn f) list []"

subsection \<open>\<^verbatim>\<open>Q.map\<close> and \<^verbatim>\<open>Q.reduce\<close>\<close>

text \<open>
  \<^verbatim>\<open>Q.map\<close> calls \<^verbatim>\<open>f(list[i], i)\<close> for each index in turn. Its callback in
  \<^verbatim>\<open>Q.amend\<close> allocates records, so the store is passed from one call to the next.
\<close>

fun map_loop ::
  "('a \<Rightarrow> nat \<Rightarrow> heap \<Rightarrow> error + ('b \<times> heap)) \<Rightarrow> 'a list \<Rightarrow> nat \<Rightarrow> heap
     \<Rightarrow> error + ('b list \<times> heap)" where
  "map_loop f [] i h = Inr ([], h)"
| "map_loop f (x # xs) i h =
     (case f x i h of
        Inl e \<Rightarrow> Inl e
      | Inr (y, h1) \<Rightarrow>
          (case map_loop f xs (Suc i) h1 of
             Inl e \<Rightarrow> Inl e
           | Inr (ys, h2) \<Rightarrow> Inr (y # ys, h2)))"

definition Q_map ::
  "('a \<Rightarrow> nat \<Rightarrow> heap \<Rightarrow> error + ('b \<times> heap)) \<Rightarrow> 'a list \<Rightarrow> heap
     \<Rightarrow> error + ('b list \<times> heap)" where
  "Q_map f list h = map_loop f list 0 h"

fun Q_reduce :: "('a \<Rightarrow> jsval \<Rightarrow> error + 'a) \<Rightarrow> 'a \<Rightarrow> jsval list \<Rightarrow> error + 'a" where
  "Q_reduce fn res [] = Inr res"
| "Q_reduce fn res (x # xs) =
     (case fn res x of
        Inl e \<Rightarrow> Inl e
      | Inr r \<Rightarrow> Q_reduce fn r xs)"

subsection \<open>Shallow merge: \<^verbatim>\<open>Q.mixin\<close>\<close>

text \<open>The literal \<^verbatim>\<open>{}\<close> allocates a record without entries at the next free address.\<close>

definition alloc :: "heap \<Rightarrow> addr \<times> heap" where
  "alloc h = (length h, h @ [[]])"

text \<open>
  Defining an own entry of a record: the value of an entry the record owns is replaced,
  a new entry is added after the others.
\<close>

definition put_own :: "heap \<Rightarrow> addr \<Rightarrow> string \<Rightarrow> jsval \<Rightarrow> heap" where
  "put_own h a k v = (if a < length h then h[a := AList.update k v (h ! a)] else h)"

text \<open>
  The assignment \<^verbatim>\<open>res[key] = v\<close> of \<^verbatim>\<open>Q.mixin\<close> writes to a record made by
  \<^verbatim>\<open>{}\<close>, whose prototype is \<^verbatim>\<open>Object.prototype\<close>. Every member the record
  inherits from it is a writable data property, and the assignment defines an own
  entry, except under the name \<^verbatim>\<open>__proto__\<close>: that member is an accessor, and the
  assignment calls its setter, which makes an object or \<^verbatim>\<open>null\<close> the prototype of
  the record, ignores any other value, and defines no entry. The later assignments of
  the call see the new prototype, so it is kept beside the store while the record is
  built: the assignment under \<^verbatim>\<open>__proto__\<close> defines an own entry when the record
  owns one already, when the chain of prototypes has ended (\<open>NoProto\<close>), or when the
  prototype is a record that owns an entry of that name.
\<close>

datatype proto = ObjectProto | NoProto | ValueProto jsval

definition proto_key :: string where
  "proto_key = ''__proto__''"

definition owns :: "props \<Rightarrow> string \<Rightarrow> bool" where
  "owns ps k = (map_of ps k \<noteq> None)"

fun setter_reachable :: "heap \<Rightarrow> proto \<Rightarrow> bool" where
  "setter_reachable h ObjectProto = True"
| "setter_reachable h NoProto = False"
| "setter_reachable h (ValueProto (Ref b)) = (\<not> owns (props_of h b) proto_key)"
| "setter_reachable h (ValueProto v) = True"

fun set_proto :: "proto \<Rightarrow> jsval \<Rightarrow> proto" where
  "set_proto p Null = NoProto"
| "set_proto p (Ref b) = ValueProto (Ref b)"
| "set_proto p (Arr t xs) = ValueProto (Arr t xs)"
| "set_proto p v = p"

definition assign :: "heap \<Rightarrow> addr \<Rightarrow> proto \<Rightarrow> string \<Rightarrow> jsval \<Rightarrow> heap \<times> proto" where
  "assign h a p k v =
     (if k = proto_key \<and> \<not> owns (props_of h a) k \<and> setter_reachable h p
      then (h, set_proto p v)
      else (put_own h a k v, p))"

text \<open>One loop \<^verbatim>\<open>for (key in src) res[key] = src[key]\<close>.\<close>

fun copy_props :: "heap \<Rightarrow> proto \<Rightarrow> jsval \<Rightarrow> string list \<Rightarrow> addr \<Rightarrow> error + (heap \<times> proto)" where
  "copy_props h p src [] res = Inr (h, p)"
| "copy_props h p src (k # ks) res =
     (case get_prop h src k of
        Inl e \<Rightarrow> Inl e
      | Inr v \<Rightarrow> (case assign h res p k v of (h1, p1) \<Rightarrow> copy_props h1 p1 src ks res))"

text \<open>
  The store holds the own entries of the new record; no operation reads a record it
  has made, and the prototype is dropped when \<^verbatim>\<open>Q.mixin\<close> returns.
\<close>

definition Q_mixin :: "heap \<Rightarrow> jsval \<Rightarrow> jsval \<Rightarrow> error + (jsval \<times> heap)" where
  "Q_mixin h left right =
     (let (res, h1) = alloc h in
      case copy_props h1 ObjectProto left (enum_keys h1 left) res of
        Inl e \<Rightarrow> Inl e
      | Inr (h2, p2) \<Rightarrow>
          (case copy_props h2 p2 right (enum_keys h2 right) res of
             Inl e \<Rightarrow> Inl e
           | Inr (h3, p3) \<Rightarrow> Inr (Ref res, h3)))"

subsection \<open>Join: \<^verbatim>\<open>Q.amend\<close>\<close>

text \<open>
  \<^verbatim>\<open>lKey\<close> is a field name; \<^verbatim>\<open>rKey\<close> is \<open>Undefined\<close> when the caller omits it.
  \<^verbatim>\<open>rKey = rKey || lKey\<close> keeps \<^verbatim>\<open>rKey\<close> when it is truthy.
\<close>

definition amend_pred :: "string \<Rightarrow> string \<Rightarrow> jsval \<Rightarrow> callable" where
  "amend_pred lKey rk l =
     (\<lambda>h r. case get_prop h l lKey of
               Inl e \<Rightarrow> Inl e
             | Inr a \<Rightarrow>
                 (case get_prop h r rk of
                    Inl e \<Rightarrow> Inl e
                  | Inr b \<Rightarrow> Inr (Bool (loose_eq a b))))"

definition amend_step :: "jsval list \<Rightarrow> string \<Rightarrow> string \<Rightarrow> jsval \<Rightarrow> nat \<Rightarrow> heap
     \<Rightarrow> error + (jsval \<times> heap)" where
  "amend_step right lKey rk l i h =
     (case Q_single h (PFun (amend_pred lKey rk l)) right of
        Inl e \<Rightarrow> Inl e
      | Inr found \<Rightarrow>
          if truthy found then Q_mixin h l found
          else (let (e, h1) = alloc h in Q_mixin h1 l (Ref e)))"

definition Q_amend :: "jsval list \<Rightarrow> jsval list \<Rightarrow> string \<Rightarrow> jsval \<Rightarrow> heap
     \<Rightarrow> error + (jsval list \<times> heap)" where
  "Q_amend left right lKey rKey h =
     (let rk = (if truthy rKey then to_str rKey else lKey) in
      Q_map (amend_step right lKey rk) left h)"

subsection \<open>\<^verbatim>\<open>Q.group\<close>\<close>

text \<open>
  \<^verbatim>\<open>ys.concat(elt)\<close> appends \<^verbatim>\<open>elt\<close> to a copy of \<^verbatim>\<open>ys\<close>, except that an
  array \<^verbatim>\<open>elt\<close> is spread: its elements are appended in its place.
\<close>

fun js_concat :: "jsval list \<Rightarrow> jsval \<Rightarrow> jsval list" where
  "js_concat ys (Arr t xs) = ys @ xs"
| "js_concat ys elt = ys @ [elt]"

text \<open>
  The accumulator \<^verbatim>\<open>acc\<close> starts as \<^verbatim>\<open>{}\<close>; its keys are the strings of the
  extracted keys and its values are arrays, which are truthy when present.
\<close>

definition group_step :: "heap \<Rightarrow> callable \<Rightarrow> (string \<times> jsval list) list \<Rightarrow> jsval
     \<Rightarrow> error + (string \<times> jsval list) list" where
  "group_step h fn acc elt =
     (case fn h elt of
        Inl e \<Rightarrow> Inl e
      | Inr k \<Rightarrow>
          Inr (AList.update (to_str k)
                 (case map_of acc (to_str k) of
                    Some ys \<Rightarrow> js_concat ys elt
                  | None \<Rightarrow> [elt])
                 acc))"

definition Q_group :: "heap \<Rightarrow> keyspec \<Rightarrow> jsval list \<Rightarrow> error + (string \<times> jsval list) list" where
  "Q_group h f list = Q_reduce (group_step h (key_fn f)) [] list"

subsection \<open>\<^verbatim>\<open>Q.sort\<close>\<close>

text \<open>The decorated pair \<^verbatim>\<open>{key: fn(item), val: item}\<close>.\<close>

record kv =
  key :: jsval
  val :: jsval

definition keyValue :: "callable \<Rightarrow> jsval list \<Rightarrow> heap \<Rightarrow> error + (kv list \<times> heap)" where
  "keyValue fn list h =
     Q_map (\<lambda>item i h. case fn h item of
                          Inl e \<Rightarrow> Inl e
                        | Inr k \<Rightarrow> Inr (\<lparr>key = k, val = item\<rparr>, h)) list h"

definition compareKeys :: "kv \<Rightarrow> kv \<Rightarrow> int" where
  "compareKeys a b = (if js_lt (key a) (key b) then - 1 else if js_gt (key a) (key b) then 1 else 0)"

text \<open>
  The host's \<^verbatim>\<open>Array.prototype.sort\<close> is not code of the library, and the
  language standard does not fix one algorithm for it: it is a parameter \<open>hs\<close> of
  \<^verbatim>\<open>Q.sort\<close>. From the language standard: the result is a rearrangement of the
  array; when the comparator is consistent on the elements (it is a total preorder of
  them), the result is in the order of the comparator and stable, elements that compare
  equal keep their order; for any other comparator the order is left to the
  implementation.
\<close>

definition consistent :: "('a \<Rightarrow> 'a \<Rightarrow> int) \<Rightarrow> 'a set \<Rightarrow> bool" where
  "consistent cmp S =
     ((\<forall>a\<in>S. \<forall>b\<in>S. (0 < cmp a b) = (cmp b a < 0))
      \<and> (\<forall>a\<in>S. \<forall>b\<in>S. \<forall>c\<in>S. cmp a b \<le> 0 \<longrightarrow> cmp b c \<le> 0 \<longrightarrow> cmp a c \<le> 0))"

definition conforming :: "(('a \<Rightarrow> 'a \<Rightarrow> int) \<Rightarrow> 'a list \<Rightarrow> 'a list) \<Rightarrow> bool" where
  "conforming hs =
     (\<forall>cmp xs.
        mset (hs cmp xs) = mset xs
        \<and> (consistent cmp (set xs) \<longrightarrow>
              sorted_wrt (\<lambda>a b. cmp a b \<le> 0) (hs cmp xs)
              \<and> (\<forall>a\<in>set xs. filter (\<lambda>b. cmp a b = 0) (hs cmp xs)
                                = filter (\<lambda>b. cmp a b = 0) xs)))"

text \<open>
  One conforming sort, for the examples: an insertion sort; an element goes before the
  first one it does not compare greater than.
\<close>

fun insert_cmp :: "('a \<Rightarrow> 'a \<Rightarrow> int) \<Rightarrow> 'a \<Rightarrow> 'a list \<Rightarrow> 'a list" where
  "insert_cmp cmp x [] = [x]"
| "insert_cmp cmp x (y # ys) =
     (if cmp x y \<le> 0 then x # y # ys else y # insert_cmp cmp x ys)"

definition array_sort :: "('a \<Rightarrow> 'a \<Rightarrow> int) \<Rightarrow> 'a list \<Rightarrow> 'a list" where
  "array_sort cmp xs = foldr (insert_cmp cmp) xs []"

text \<open>
  Another conforming sort: it returns the array reversed when the comparator is not
  consistent on it, as a host does that finds the array to be one descending run, each
  element comparing less than the one before it.
\<close>

definition reversing_sort :: "('a \<Rightarrow> 'a \<Rightarrow> int) \<Rightarrow> 'a list \<Rightarrow> 'a list" where
  "reversing_sort cmp xs = (if consistent cmp (set xs) then array_sort cmp xs else rev xs)"

text \<open>\<^verbatim>\<open>Q.pluck(key, list)\<close> on decorated pairs: \<^verbatim>\<open>Q.map(Q.field(key), list)\<close>.\<close>

definition kv_field :: "string \<Rightarrow> kv \<Rightarrow> jsval" where
  "kv_field p x = (if p = ''key'' then key x else if p = ''val'' then val x else Undefined)"

definition Q_pluck :: "string \<Rightarrow> kv list \<Rightarrow> heap \<Rightarrow> error + (jsval list \<times> heap)" where
  "Q_pluck p list h = Q_map (\<lambda>x i h. Inr (kv_field p x, h)) list h"

text \<open>\<^verbatim>\<open>-1 * v\<close>: the operand becomes a number; \<open>NaN\<close> stays \<open>NaN\<close>.\<close>

fun num_sgn :: "jsnum \<Rightarrow> int" where
  "num_sgn NaN = 0"
| "num_sgn NegInf = - 1"
| "num_sgn (Fin i) = sgn i"
| "num_sgn PosInf = 1"

fun num_mul :: "jsnum \<Rightarrow> jsnum \<Rightarrow> jsnum" where
  "num_mul NaN n = NaN"
| "num_mul m NaN = NaN"
| "num_mul (Fin i) (Fin j) = Fin (i * j)"
| "num_mul m n =
     (if num_sgn m * num_sgn n = 0 then NaN
      else if 0 < num_sgn m * num_sgn n then PosInf else NegInf)"

text \<open>
  The key function of \<^verbatim>\<open>Q.sort\<close>: a function as it is, a field name that starts
  with \<^verbatim>\<open>-\<close> as the negated value of the field named by the rest, any other field
  name as \<^verbatim>\<open>Q.field\<close>.
\<close>

fun sort_fn :: "keyspec \<Rightarrow> callable" where
  "sort_fn (KFun f) = f"
| "sort_fn (KField p) =
     (if take 1 p = ''-''
      then (\<lambda>h d. case get_prop h d (drop 1 p) of
                     Inl e \<Rightarrow> Inl e
                   | Inr v \<Rightarrow> Inr (Num (num_mul (Fin (- 1)) (to_number v))))
      else Q_field p)"

definition Q_sort ::
  "((kv \<Rightarrow> kv \<Rightarrow> int) \<Rightarrow> kv list \<Rightarrow> kv list) \<Rightarrow> heap \<Rightarrow> keyspec \<Rightarrow> jsval list
     \<Rightarrow> error + jsval list" where
  "Q_sort hs h f list =
     (case keyValue (sort_fn f) list h of
        Inl e \<Rightarrow> Inl e
      | Inr (kvs, h1) \<Rightarrow>
          (case Q_pluck ''val'' (hs compareKeys kvs) h1 of
             Inl e \<Rightarrow> Inl e
           | Inr (ys, h2) \<Rightarrow> Inr ys))"

subsection \<open>\<^verbatim>\<open>Q.lay\<close>\<close>

text \<open>
  The host's numbers are doubles, with 53 significant bits: every integer of magnitude
  below \<open>2^53\<close> is a double, and from there on the doubles lie \<open>ulp\<close> apart, \<open>2\<close> up to
  \<open>2^54\<close>, \<open>4\<close> up to \<open>2^55\<close> and so on up to \<open>2^1024\<close>. An operation returns the
  double nearest to the exact result, of two nearest ones the one with the even
  significand, and an infinity from \<open>2^1024\<close> on.
\<close>

function ulp :: "nat \<Rightarrow> nat" where
  "ulp n = (if n < 2 ^ 53 then 1 else 2 * ulp (n div 2))"
  by pat_completeness auto
termination
  by (relation "measure id") auto

declare ulp.simps [simp del]

definition round_double :: "int \<Rightarrow> jsnum" where
  "round_double x =
     (let u = int (ulp (nat \<bar>x\<bar>));
          q = x div u;
          r = x mod u;
          y = (if 2 * r < u \<or> (2 * r = u \<and> even q) then q * u else (q + 1) * u)
      in if 2 ^ 1024 \<le> y then PosInf
         else if y \<le> - (2 ^ 1024) then NegInf
         else Fin y)"

text \<open>\<^verbatim>\<open>i += step\<close>: the sum of two numbers.\<close>

fun num_add :: "jsnum \<Rightarrow> jsnum \<Rightarrow> jsnum" where
  "num_add NaN n = NaN"
| "num_add m NaN = NaN"
| "num_add (Fin i) (Fin j) = round_double (i + j)"
| "num_add PosInf NegInf = NaN"
| "num_add NegInf PosInf = NaN"
| "num_add PosInf n = PosInf"
| "num_add NegInf n = NegInf"
| "num_add (Fin i) n = n"

text \<open>
  The two loops of \<^verbatim>\<open>Q.lay\<close>. Nothing in a loop itself bounds the number of its
  rounds, so a loop returns \<open>None\<close> when it runs forever.
\<close>

partial_function (option) lay_up :: "jsnum \<Rightarrow> jsnum \<Rightarrow> jsnum \<Rightarrow> jsnum list \<Rightarrow> jsnum list option" where
  "lay_up end step i res =
     (if num_lt i end then lay_up end step (num_add i step) (res @ [i]) else Some res)"

partial_function (option) lay_down :: "jsnum \<Rightarrow> jsnum \<Rightarrow> jsnum \<Rightarrow> jsnum list \<Rightarrow> jsnum list option" where
  "lay_down end step i res =
     (if num_lt end i then lay_down end step (num_add i step) (res @ [i]) else Some res)"

text \<open>
  \<^verbatim>\<open>start\<close> and \<^verbatim>\<open>step\<close> are \<open>None\<close> when the caller omits them.
  \<^verbatim>\<open>start || 0\<close> replaces an omitted, zero or \<open>NaN\<close> start by \<open>0\<close>;
  \<^verbatim>\<open>step == null ? 1 : step\<close> replaces an omitted step by \<open>1\<close>.
\<close>

definition Q_lay :: "jsnum \<Rightarrow> jsnum option \<Rightarrow> jsnum option \<Rightarrow> jsnum list option" where
  "Q_lay end start step =
     (let start1 = (case start of
                      None \<Rightarrow> Fin 0
                    | Some n \<Rightarrow> if truthy (Num n) then n else Fin 0);
          step1 = (case step of None \<Rightarrow> Fin 1 | Some n \<Rightarrow> n)
      in if num_lt (Fin 0) step1 then lay_up end step1 start1 []
         else if num_lt step1 (Fin 0) then lay_down end step1 start1 []
         else Some [])"

section \<open>Notions used in the statements\<close>

text \<open>
  A matcher accepts an element when its predicate returns a truthy value on it, and
  rejects it when the predicate returns a falsy one; it does neither when the predicate
  throws.
\<close>

definition accepts :: "heap \<Rightarrow> matcher \<Rightarrow> jsval \<Rightarrow> bool" where
  "accepts h p x = (case pred_fn p h x of Inl e \<Rightarrow> False | Inr b \<Rightarrow> truthy b)"

definition rejects :: "heap \<Rightarrow> matcher \<Rightarrow> jsval \<Rightarrow> bool" where
  "rejects h p x = (case pred_fn p h x of Inl e \<Rightarrow> False | Inr b \<Rightarrow> \<not> truthy b)"

text \<open>A record of the store, and the entries it owns.\<close>

fun is_record :: "heap \<Rightarrow> jsval \<Rightarrow> bool" where
  "is_record h (Ref a) = (a < length h)"
| "is_record h v = False"

fun rec_props :: "heap \<Rightarrow> jsval \<Rightarrow> props" where
  "rec_props h (Ref a) = props_of h a"
| "rec_props h v = []"

text \<open>
  What claim C2 says of one element \<open>l\<close> of \<^verbatim>\<open>left\<close>: \<open>key_match\<close> holds of the
  right elements whose \<open>rk\<close> field loosely equals the \<open>lKey\<close> field of \<open>l\<close>, and
  \<open>merged\<close> is the entries of \<open>l\<close> overridden by those of the first such element, or
  the entries of \<open>l\<close> alone when there is none.
\<close>

definition key_match :: "heap \<Rightarrow> string \<Rightarrow> string \<Rightarrow> jsval \<Rightarrow> jsval \<Rightarrow> bool" where
  "key_match h lKey rk l r = loose_eq (lookup (rec_props h l) lKey) (lookup (rec_props h r) rk)"

definition merged :: "heap \<Rightarrow> string \<Rightarrow> string \<Rightarrow> jsval list \<Rightarrow> jsval \<Rightarrow> string \<rightharpoonup> jsval" where
  "merged h lKey rk right l =
     (case find (key_match h lKey rk l) right of
        None \<Rightarrow> map_of (rec_props h l)
      | Some r \<Rightarrow> map_of (rec_props h l) ++ map_of (rec_props h r))"

text \<open>
  A record holds the entries \<open>m\<close> apart from \<^verbatim>\<open>__proto__\<close>: under every other name
  its entries are those of \<open>m\<close>, and it owns no entry of that name when \<open>m\<close> has none.
\<close>

definition holds_entries :: "props \<Rightarrow> (string \<rightharpoonup> jsval) \<Rightarrow> bool" where
  "holds_entries ps m =
     ((\<forall>j. j \<noteq> proto_key \<longrightarrow> map_of ps j = m j) \<and> (m proto_key = None \<longrightarrow> map_of ps proto_key = None))"

text \<open>
  The key \<^verbatim>\<open>Q.sort\<close> extracts from an element (\<open>Undefined\<close> stands in where the
  key function throws), and the decorated pair made of it.
\<close>

definition key_of :: "heap \<Rightarrow> keyspec \<Rightarrow> jsval \<Rightarrow> jsval" where
  "key_of h f x = (case sort_fn f h x of Inl e \<Rightarrow> Undefined | Inr k \<Rightarrow> k)"

definition decorate :: "heap \<Rightarrow> keyspec \<Rightarrow> jsval \<Rightarrow> kv" where
  "decorate h f x = \<lparr>key = key_of h f x, val = x\<rparr>"

fun is_number :: "jsval \<Rightarrow> bool" where
  "is_number (Num n) = (n \<noteq> NaN)"
| "is_number v = False"

fun is_text :: "jsval \<Rightarrow> bool" where
  "is_text (Str s) = True"
| "is_text v = False"

text \<open>
  Keys of one class, all numbers other than \<open>NaN\<close> or all strings: on such keys the
  operator \<^verbatim>\<open><\<close> is a linear order.
\<close>

definition same_class :: "jsval set \<Rightarrow> bool" where
  "same_class K = ((\<forall>k\<in>K. is_number k) \<or> (\<forall>k\<in>K. is_text k))"

text \<open>The number in the field \<open>p\<close> of an element, for claim C9.\<close>

definition field_num :: "heap \<Rightarrow> string \<Rightarrow> jsval \<Rightarrow> jsnum" where
  "field_num h p x = (case get_prop h x p of Inr (Num n) \<Rightarrow> n | _ \<Rightarrow> NaN)"

subsection \<open>Stores of the examples\<close>

definition h_abc :: heap where
  "h_abc = [[(''a'', Num (Fin 1))], [(''a'', Num (Fin 2))], [(''a'', Num (Fin 3))],
            [(''a'', Num (Fin 2))], [(''a'', Num (Fin 4))]]"

definition h_mold :: heap where
  "h_mold = [[(''a'', Num (Fin 1))], [(''a'', Str ''1''), (''b'', Num (Fin 1))], []]"

definition h_join :: heap where
  "h_join = [[(''id'', Num (Fin 1)), (''b'', Num (Fin 2))],
             [(''id'', Num (Fin 2)), (''b'', Num (Fin 2))],
             [(''id'', Num (Fin 1)), (''d'', Num (Fin 4))]]"

definition h_blank :: heap where
  "h_blank = [[(''id'', Num (Fin 1))],
              [([], Num (Fin 1)), (''id'', Num (Fin 2)), (''d'', Num (Fin 4))]]"

definition h_proto :: heap where
  "h_proto = [[(''__proto__'', Num (Fin 1)), (''id'', Num (Fin 1))], []]"

definition h_age :: heap where
  "h_age = [[(''age'', Num (Fin 2))], [(''age'', Num (Fin 1)), (''n'', Num (Fin 1))],
            [(''age'', Num (Fin 3))], [(''age'', Num (Fin 1)), (''n'', Num (Fin 2))]]"

definition h_mixed :: heap where
  "h_mixed = [[(''k'', Num (Fin 10))], [(''k'', Str ''9'')], [(''k'', Str ''11'')],
              [(''k'', Num (Fin 10))]]"

section \<open>Properties\<close>

subsection \<open>The ordering operator\<close>

lemma str_lt_irrefl: "\<not> str_lt s s"
  by (induction s) auto

lemma num_lt_irrefl: "\<not> num_lt n n"
  by (cases n) auto

lemma js_lt_irrefl: "\<not> js_lt k k"
  by (auto simp: js_lt_def str_lt_irrefl num_lt_irrefl split: jsval.splits prod.splits)

subsection \<open>\<^verbatim>\<open>Q.min\<close> and \<^verbatim>\<open>Q.max\<close>\<close>

lemma min_loop_mem:
  "\<forall>x\<in>set xs. \<exists>k. fn h x = Inr k \<Longrightarrow>
   \<exists>y \<in> insert item (set xs). min_loop h fn xs item res = Inr y"
  by (induction xs arbitrary: item res) (auto split: sum.splits)

lemma max_loop_mem:
  "\<forall>x\<in>set xs. \<exists>k. fn h x = Inr k \<Longrightarrow>
   \<exists>y \<in> insert item (set xs). max_loop h fn xs item res = Inr y"
  by (induction xs arbitrary: item res) (auto split: sum.splits)

text \<open>
  Claim C1 says that \<^verbatim>\<open>min(f, [])\<close> and \<^verbatim>\<open>max(f, [])\<close> return
  \<^verbatim>\<open>undefined\<close> and never throw, for every key function or field name \<^verbatim>\<open>f\<close>.
  The code seeds its scan with \<^verbatim>\<open>fn(list[0])\<close> before the loop; on the empty
  sequence \<^verbatim>\<open>list[0]\<close> is \<^verbatim>\<open>undefined\<close>, and with a field name \<^verbatim>\<open>fn\<close> reads
  a property of it: for every field name, both operations throw a \<^verbatim>\<open>TypeError\<close>,
  and so they do for the key function \<^verbatim>\<open>x => x.p\<close>.
\<close>

theorem min_max_empty_field_throws:
  "Q_min h (KField p) [] = Inl TypeError \<and> Q_max h (KField p) [] = Inl TypeError
   \<and> Q_min h (KFun (\<lambda>h x. get_prop h x p)) [] = Inl TypeError
   \<and> Q_max h (KFun (\<lambda>h x. get_prop h x p)) [] = Inl TypeError"
  by (simp add: Q_min_def Q_max_def nth_or_undef_def Q_field_def)

text \<open>
  Claim C10: on a non-empty sequence whose elements all have a key (the key function
  throws on none of them), \<^verbatim>\<open>Q.min\<close> and \<^verbatim>\<open>Q.max\<close> return an element of the
  sequence; on a one-element sequence they return that element, whatever its key is,
  \<open>NaN\<close> included.
\<close>

theorem min_max_return_element:
  assumes "xs \<noteq> []" and "\<forall>x\<in>set xs. \<exists>k. key_fn f h x = Inr k"
  shows "(\<exists>y\<in>set xs. Q_min h f xs = Inr y) \<and> (\<exists>y\<in>set xs. Q_max h f xs = Inr y)
         \<and> (xs = [x] \<longrightarrow> Q_min h f xs = Inr x \<and> Q_max h f xs = Inr x)"
proof -
  from assms(1) obtain a as where xs: "xs = a # as" by (cases xs) auto
  from assms(2) xs obtain k where k: "key_fn f h a = Inr k" by auto
  have "\<exists>y \<in> insert a (set xs). min_loop h (key_fn f) xs a k = Inr y"
    using assms(2) by (rule min_loop_mem)
  then have 1: "\<exists>y\<in>set xs. Q_min h f xs = Inr y"
    using xs k by (simp add: Q_min_def nth_or_undef_def)
  have "\<exists>y \<in> insert a (set xs). max_loop h (key_fn f) xs a k = Inr y"
    using assms(2) by (rule max_loop_mem)
  then have 2: "\<exists>y\<in>set xs. Q_max h f xs = Inr y"
    using xs k by (simp add: Q_max_def nth_or_undef_def)
  have 3: "xs = [x] \<longrightarrow> Q_min h f xs = Inr x \<and> Q_max h f xs = Inr x"
    using xs k by (auto simp: Q_min_def Q_max_def nth_or_undef_def js_gt_def js_lt_irrefl)
  from 1 2 3 show ?thesis by blast
qed

theorem min_max_return_element_witness:
  "Q_min [[(''x'', Num NaN)]] (KField ''x'') [Ref 0] = Inr (Ref 0)
   \<and> Q_max [[(''x'', Num NaN)]] (KField ''x'') [Ref 0] = Inr (Ref 0)"
  using min_max_return_element [of "[Ref 0]" "KField ''x''" "[[(''x'', Num NaN)]]" "Ref 0"]
  by (simp add: Q_field_def)

subsection \<open>\<^verbatim>\<open>Q.single\<close> and \<^verbatim>\<open>Q.mold\<close>\<close>

lemma single_loop_first:
  "i < length xs \<Longrightarrow> accepts h p (xs ! i) \<Longrightarrow> (\<forall>j<i. rejects h p (xs ! j)) \<Longrightarrow>
   single_loop h (pred_fn p) xs = Inr (xs ! i)"
proof (induction xs arbitrary: i)
  case Nil
  then show ?case by simp
next
  case (Cons x xs)
  show ?case
  proof (cases i)
    case 0
    with Cons.prems show ?thesis by (auto simp: accepts_def split: sum.splits)
  next
    case (Suc n)
    with Cons.prems have "rejects h p x" by auto
    moreover have "single_loop h (pred_fn p) xs = Inr (xs ! n)"
      using Cons.prems Suc by (intro Cons.IH) auto
    ultimately show ?thesis using Suc by (auto simp: rejects_def split: sum.splits)
  qed
qed

lemma single_loop_none:
  "\<forall>x\<in>set xs. rejects h p x \<Longrightarrow> single_loop h (pred_fn p) xs = Inr Undefined"
  by (induction xs) (auto simp: rejects_def split: sum.splits)

text \<open>
  Claim C7: \<^verbatim>\<open>single(p, seq)\<close> returns the element at the lowest index that the
  resolved predicate accepts (the predicate rejects every element before it), and
  \<^verbatim>\<open>undefined\<close> when the predicate rejects every element.
\<close>

theorem single_lowest_index:
  "(i < length xs \<longrightarrow> accepts h p (xs ! i) \<longrightarrow> (\<forall>j<i. rejects h p (xs ! j)) \<longrightarrow>
      Q_single h p xs = Inr (xs ! i))
   \<and> ((\<forall>x\<in>set xs. rejects h p x) \<longrightarrow> Q_single h p xs = Inr Undefined)"
  by (simp add: Q_single_def single_loop_first single_loop_none)

theorem single_lowest_index_witness:
  "Q_single h_abc (PSpec (Ref 3)) [Ref 0, Ref 1, Ref 2] = Inr (Ref 1)
   \<and> Q_single h_abc (PSpec (Ref 4)) [Ref 0, Ref 1, Ref 2] = Inr Undefined"
  using single_lowest_index [of 1 "[Ref 0, Ref 1, Ref 2]" h_abc "PSpec (Ref 3)"]
        single_lowest_index [of 0 "[Ref 0, Ref 1, Ref 2]" h_abc "PSpec (Ref 4)"]
  by (simp add: accepts_def rejects_def Q_mold_def h_abc_def props_of_def lookup_def loose_eq_def)

lemma filter_loop_accepted:
  "\<forall>x\<in>set xs. accepts h p x \<or> rejects h p x \<Longrightarrow>
   filter_loop h (pred_fn p) xs res = Inr (res @ filter (accepts h p) xs)"
  by (induction xs arbitrary: res) (auto simp: accepts_def rejects_def split: sum.splits)

lemma filter_keeps_accepted:
  "\<forall>x\<in>set xs. accepts h p x \<or> rejects h p x \<Longrightarrow>
   Q_filter h p xs = Inr (filter (accepts h p) xs)"
  by (simp add: Q_filter_def filter_loop_accepted)

lemma mold_loop_records:
  "mold_loop h (Ref a) (Ref b) ks =
     Inr (Bool (\<forall>k\<in>set ks. loose_eq (lookup (props_of h a) k) (lookup (props_of h b) k)))"
  by (induction ks) auto

text \<open>
  Claim C5: for a specification record and a record, the predicate \<^verbatim>\<open>mold(s)\<close>
  answers \<^verbatim>\<open>true\<close> exactly when at every key of the specification the two values
  are equal under \<^verbatim>\<open>==\<close>; the predicate of a specification without keys answers
  \<^verbatim>\<open>true\<close> on everything.
\<close>

theorem mold_iff_all_keys_loosely_equal:
  "Q_mold (Ref a) h (Ref b) =
     Inr (Bool (\<forall>k\<in>set (map fst (props_of h a)).
                  loose_eq (lookup (props_of h a) k) (lookup (props_of h b) k)))
   \<and> (props_of h a = [] \<longrightarrow> Q_mold (Ref a) h obj = Inr (Bool True))"
  by (simp add: Q_mold_def mold_loop_records)

theorem mold_iff_all_keys_loosely_equal_witness:
  "Q_mold (Ref 0) h_mold (Ref 1) = Inr (Bool True)
   \<and> Q_mold (Ref 1) h_mold (Ref 0) = Inr (Bool False)
   \<and> Q_mold (Ref 2) h_mold Undefined = Inr (Bool True)"
  using mold_iff_all_keys_loosely_equal [of 0 h_mold 1 Undefined]
        mold_iff_all_keys_loosely_equal [of 1 h_mold 0 Undefined]
        mold_iff_all_keys_loosely_equal [of 2 h_mold 1 Undefined]
  by (simp add: h_mold_def props_of_def lookup_def loose_eq_def str_to_num_def trim_def
        is_space_def all_digits_def is_digit_def digits_val_def)

subsection \<open>\<^verbatim>\<open>Q.mixin\<close>\<close>

lemma props_of_append [simp]: "a < length h \<Longrightarrow> props_of (h @ g) a = h ! a"
  by (simp add: props_of_def nth_append)

lemma props_of_new [simp]: "props_of (h @ [ps]) (length h) = ps"
  by (simp add: props_of_def)

lemma put_own_new [simp]:
  "put_own (h @ [ps]) (length h) k v = h @ [AList.update k v ps]"
  by (simp add: put_own_def)

lemma assign_new:
  "\<exists>ps' p'. assign (h @ [ps]) (length h) p k v = (h @ [ps'], p')
      \<and> (\<forall>j. j \<noteq> proto_key \<longrightarrow> map_of ps' j = (if j = k then Some v else map_of ps j))
      \<and> (k \<noteq> proto_key \<longrightarrow> map_of ps' proto_key = map_of ps proto_key)"
proof (cases "k = proto_key \<and> \<not> owns ps k \<and> setter_reachable (h @ [ps]) p")
  case True
  then have "assign (h @ [ps]) (length h) p k v = (h @ [ps], set_proto p v)"
    by (auto simp: assign_def)
  with True show ?thesis by auto
next
  case False
  then have "assign (h @ [ps]) (length h) p k v = (h @ [AList.update k v ps], p)"
    by (auto simp: assign_def)
  moreover have "\<forall>j. j \<noteq> proto_key \<longrightarrow>
                   map_of (AList.update k v ps) j = (if j = k then Some v else map_of ps j)"
    by (simp add: update_conv')
  moreover have "k \<noteq> proto_key \<longrightarrow> map_of (AList.update k v ps) proto_key = map_of ps proto_key"
    by (simp add: update_conv')
  ultimately show ?thesis by blast
qed

lemma copy_props_record:
  "l < length h \<Longrightarrow>
   \<exists>ps' p'. copy_props (h @ [ps]) p (Ref l) ks (length h) = Inr (h @ [ps'], p')
      \<and> (\<forall>j. j \<noteq> proto_key \<longrightarrow>
             map_of ps' j = (if j \<in> set ks then Some (lookup (h ! l) j) else map_of ps j))
      \<and> (proto_key \<notin> set ks \<longrightarrow> map_of ps' proto_key = map_of ps proto_key)"
proof (induction ks arbitrary: ps p)
  case Nil
  show ?case by simp
next
  case (Cons k ks)
  from assign_new [of h ps p k "lookup (h ! l) k"]
  obtain ps1 p1 where step: "assign (h @ [ps]) (length h) p k (lookup (h ! l) k) = (h @ [ps1], p1)"
    and other1: "\<forall>j. j \<noteq> proto_key \<longrightarrow>
                   map_of ps1 j = (if j = k then Some (lookup (h ! l) k) else map_of ps j)"
    and own1: "k \<noteq> proto_key \<longrightarrow> map_of ps1 proto_key = map_of ps proto_key"
    by blast
  from Cons.IH [OF Cons.prems, of ps1 p1]
  obtain ps2 p2 where rest: "copy_props (h @ [ps1]) p1 (Ref l) ks (length h) = Inr (h @ [ps2], p2)"
    and other2: "\<forall>j. j \<noteq> proto_key \<longrightarrow>
                   map_of ps2 j = (if j \<in> set ks then Some (lookup (h ! l) j) else map_of ps1 j)"
    and own2: "proto_key \<notin> set ks \<longrightarrow> map_of ps2 proto_key = map_of ps1 proto_key"
    by blast
  have run: "copy_props (h @ [ps]) p (Ref l) (k # ks) (length h) = Inr (h @ [ps2], p2)"
    using Cons.prems step rest by simp
  have "\<forall>j. j \<noteq> proto_key \<longrightarrow>
          map_of ps2 j = (if j \<in> set (k # ks) then Some (lookup (h ! l) j) else map_of ps j)"
    using other1 other2 by auto
  moreover have "proto_key \<notin> set (k # ks) \<longrightarrow> map_of ps2 proto_key = map_of ps proto_key"
    using own1 own2 by auto
  ultimately show ?case using run by blast
qed

lemma own_keys_lookup:
  "(if j \<in> set (map fst src) then Some (lookup src j) else m j) = (m ++ map_of src) j"
proof (cases "map_of src j")
  case None
  then have "j \<notin> set (map fst src)" by (simp add: map_of_eq_None_iff)
  with None show ?thesis by (simp add: map_add_def)
next
  case (Some v)
  then have "j \<in> set (map fst src)" by (metis map_of_eq_None_iff option.distinct(1) set_map)
  with Some show ?thesis by (simp add: map_add_def lookup_def)
qed

lemma not_own_key: "map_of src k = None \<Longrightarrow> k \<notin> set (map fst src)"
  by (simp add: map_of_eq_None_iff)

lemma mixin_records:
  assumes "l < length h" and "r < length h"
  shows "\<exists>ps. Q_mixin h (Ref l) (Ref r) = Inr (Ref (length h), h @ [ps])
           \<and> (\<forall>j. j \<noteq> proto_key \<longrightarrow> map_of ps j = (map_of (h ! l) ++ map_of (h ! r)) j)
           \<and> ((map_of (h ! l) ++ map_of (h ! r)) proto_key = None \<longrightarrow> map_of ps proto_key = None)"
proof -
  from copy_props_record [OF assms(1), of "[]" ObjectProto "map fst (h ! l)"]
  obtain ps1 p1 where c1: "copy_props (h @ [[]]) ObjectProto (Ref l) (map fst (h ! l)) (length h)
                             = Inr (h @ [ps1], p1)"
    and o1: "\<forall>j. j \<noteq> proto_key \<longrightarrow>
               map_of ps1 j = (if j \<in> set (map fst (h ! l)) then Some (lookup (h ! l) j)
                               else map_of [] j)"
    and w1: "proto_key \<notin> set (map fst (h ! l)) \<longrightarrow> map_of ps1 proto_key = map_of [] proto_key"
    by blast
  from copy_props_record [OF assms(2), of ps1 p1 "map fst (h ! r)"]
  obtain ps2 p2 where c2: "copy_props (h @ [ps1]) p1 (Ref r) (map fst (h ! r)) (length h)
                             = Inr (h @ [ps2], p2)"
    and o2: "\<forall>j. j \<noteq> proto_key \<longrightarrow>
               map_of ps2 j = (if j \<in> set (map fst (h ! r)) then Some (lookup (h ! r) j)
                               else map_of ps1 j)"
    and w2: "proto_key \<notin> set (map fst (h ! r)) \<longrightarrow> map_of ps2 proto_key = map_of ps1 proto_key"
    by blast
  have run: "Q_mixin h (Ref l) (Ref r) = Inr (Ref (length h), h @ [ps2])"
    using assms c1 c2 by (simp add: Q_mixin_def alloc_def)
  have other: "map_of ps2 j = (map_of (h ! l) ++ map_of (h ! r)) j" if "j \<noteq> proto_key" for j
  proof -
    from o1 that have "map_of ps1 j = (if j \<in> set (map fst (h ! l)) then Some (lookup (h ! l) j)
                                      else map_of [] j)" by blast
    also have "\<dots> = (map_of [] ++ map_of (h ! l)) j" by (rule own_keys_lookup)
    finally have e1: "map_of ps1 j = map_of (h ! l) j" by simp
    from o2 that have "map_of ps2 j = (if j \<in> set (map fst (h ! r)) then Some (lookup (h ! r) j)
                                      else map_of ps1 j)" by blast
    also have "\<dots> = (map_of ps1 ++ map_of (h ! r)) j" by (rule own_keys_lookup)
    also have "\<dots> = (map_of (h ! l) ++ map_of (h ! r)) j"
      by (simp add: map_add_def e1 split: option.splits)
    finally show ?thesis .
  qed
  have none: "map_of ps2 proto_key = None" if "(map_of (h ! l) ++ map_of (h ! r)) proto_key = None"
  proof -
    from that have "map_of (h ! l) proto_key = None" and "map_of (h ! r) proto_key = None"
      by (auto simp: map_add_def split: option.splits)
    then have "proto_key \<notin> set (map fst (h ! l))" and "proto_key \<notin> set (map fst (h ! r))"
      by (simp_all add: map_of_eq_None_iff)
    with w1 w2 show ?thesis by simp
  qed
  from run other none show ?thesis by blast
qed

lemma restrict_eqI:
  "\<forall>j. j \<noteq> k \<longrightarrow> m j = n j \<Longrightarrow> m |` (- {k}) = n |` (- {k})"
  by (auto simp: restrict_map_def fun_eq_iff)

lemma whole_eqI:
  "\<forall>j. j \<noteq> k \<longrightarrow> m j = n j \<Longrightarrow> m k = n k \<Longrightarrow> m = (n :: 'a \<rightharpoonup> 'b)"
  by (auto simp: fun_eq_iff)

text \<open>
  Claim C8, as amended: for two records of the store, \<^verbatim>\<open>mixin(left, right)\<close> returns
  a new record, at an address the store did not hold; under every name other than
  \<^verbatim>\<open>__proto__\<close> its entries are those of \<^verbatim>\<open>left\<close> overridden by those of
  \<^verbatim>\<open>right\<close>, and they are so under every name when neither record owns an entry
  named \<^verbatim>\<open>__proto__\<close>; the store after the call is the store before it with the new
  record added, so \<^verbatim>\<open>left\<close> and \<^verbatim>\<open>right\<close> hold what they held.
\<close>

theorem mixin_right_wins_inputs_kept:
  assumes "l < length h" and "r < length h"
  shows "\<exists>h' ps. Q_mixin h (Ref l) (Ref r) = Inr (Ref (length h), h')
           \<and> h' = h @ [ps]
           \<and> map_of ps |` (- {proto_key}) = (map_of (h ! l) ++ map_of (h ! r)) |` (- {proto_key})
           \<and> ((map_of (h ! l) ++ map_of (h ! r)) proto_key = None \<longrightarrow>
                 map_of ps = map_of (h ! l) ++ map_of (h ! r))
           \<and> h' ! l = h ! l \<and> h' ! r = h ! r"
proof -
  from mixin_records [OF assms]
  obtain ps where run: "Q_mixin h (Ref l) (Ref r) = Inr (Ref (length h), h @ [ps])"
    and other: "\<forall>j. j \<noteq> proto_key \<longrightarrow> map_of ps j = (map_of (h ! l) ++ map_of (h ! r)) j"
    and none: "(map_of (h ! l) ++ map_of (h ! r)) proto_key = None \<longrightarrow> map_of ps proto_key = None"
    by blast
  have a: "map_of ps |` (- {proto_key}) = (map_of (h ! l) ++ map_of (h ! r)) |` (- {proto_key})"
    using other by (rule restrict_eqI)
  have b: "(map_of (h ! l) ++ map_of (h ! r)) proto_key = None \<longrightarrow>
             map_of ps = map_of (h ! l) ++ map_of (h ! r)"
  proof
    assume n: "(map_of (h ! l) ++ map_of (h ! r)) proto_key = None"
    with none have "map_of ps proto_key = None" by blast
    with n have "map_of ps proto_key = (map_of (h ! l) ++ map_of (h ! r)) proto_key"
      by (simp only:)
    with other show "map_of ps = map_of (h ! l) ++ map_of (h ! r)" by (rule whole_eqI)
  qed
  have c: "(h @ [ps]) ! l = h ! l" "(h @ [ps]) ! r = h ! r"
    using assms by (simp_all add: nth_append)
  from run a b c show ?thesis by blast
qed

lemmas mixin_eval =
  Q_mixin_def alloc_def assign_def put_own_def owns_def proto_key_def props_of_def lookup_def
  Let_def eval_nat_numeral

theorem mixin_right_wins_inputs_kept_witness:
  "Q_mixin [[(''a'', Num (Fin 1)), (''b'', Num (Fin 1))], [(''a'', Num (Fin 9))]] (Ref 0) (Ref 1)
     = Inr (Ref 2, [[(''a'', Num (Fin 1)), (''b'', Num (Fin 1))], [(''a'', Num (Fin 9))],
                    [(''a'', Num (Fin 9)), (''b'', Num (Fin 1))]])"
  using mixin_right_wins_inputs_kept
    [of 0 "[[(''a'', Num (Fin 1)), (''b'', Num (Fin 1))], [(''a'', Num (Fin 9))]]" 1]
  by (simp add: mixin_eval)

text \<open>
  Claim C8 as it is stated, for all records, fails on a record that owns an entry named
  \<^verbatim>\<open>__proto__\<close> (as \<^verbatim>\<open>JSON.parse\<close> makes them): the assignment
  \<^verbatim>\<open>res["__proto__"] = 1\<close> goes to the inherited setter, which ignores the number,
  and the new record does not hold the entry.
\<close>

theorem mixin_proto_entry_counterexample:
  "lookup (h_proto ! 0) ''__proto__'' = Num (Fin 1)
   \<and> Q_mixin h_proto (Ref 0) (Ref 1) = Inr (Ref 2, h_proto @ [[(''id'', Num (Fin 1))]])"
  by (simp add: h_proto_def mixin_eval)

subsection \<open>\<^verbatim>\<open>Q.amend\<close>\<close>

lemma is_record_append: "is_record h v \<Longrightarrow> is_record (h @ e) v"
  by (cases v) auto

lemma rec_props_append [simp]: "is_record h v \<Longrightarrow> rec_props (h @ e) v = rec_props h v"
  by (cases v) (auto simp: props_of_def nth_append)

lemma get_prop_record: "is_record h v \<Longrightarrow> get_prop h v k = Inr (lookup (rec_props h v) k)"
  by (cases v) auto

lemma single_amend:
  assumes "is_record g l" and "\<forall>r\<in>set right. is_record g r"
  shows "single_loop g (amend_pred lKey rk l) right =
           Inr (case find (key_match g lKey rk l) right of None \<Rightarrow> Undefined | Some r \<Rightarrow> r)"
  using assms(2)
  by (induction right) (simp_all add: amend_pred_def get_prop_record assms(1) key_match_def)

lemma find_record:
  "\<forall>r\<in>set right. is_record g r \<Longrightarrow> find P right = Some r \<Longrightarrow> is_record g r"
  by (induction right) (auto split: if_splits)

lemma nth_two_after: "(h @ e @ [p, q]) ! Suc (length h + length e) = q"
  by (simp add: nth_append)

lemma nth_one_after: "(h @ e @ [q]) ! (length h + length e) = q"
  by (simp add: nth_append)

lemma nth_keep: "a < length h + length e \<Longrightarrow> (h @ e @ e2) ! a = (h @ e) ! a"
  using nth_append [of "h @ e" e2 a] by simp

lemma find_key_match_append:
  assumes "is_record h l" and "\<forall>r\<in>set right. is_record h r"
  shows "find (key_match (h @ e) lKey rk l) right = find (key_match h lKey rk l) right"
  using assms by (intro find_cong) (auto simp: key_match_def)

lemma amend_step_records:
  assumes l: "is_record h l" and rs: "\<forall>r\<in>set right. is_record h r"
  shows "\<exists>a e'. amend_step right lKey rk l i (h @ e) = Inr (Ref a, h @ e @ e')
           \<and> length (h @ e) \<le> a \<and> a < length (h @ e @ e')
           \<and> holds_entries ((h @ e @ e') ! a) (merged h lKey rk right l)"
proof -
  let ?g = "h @ e"
  obtain la where la: "l = Ref la" "la < length h" using l by (cases l) auto
  have lg: "is_record ?g l" and rg: "\<forall>r\<in>set right. is_record ?g r"
    using l rs by (auto intro: is_record_append)
  have single: "Q_single ?g (PFun (amend_pred lKey rk l)) right =
           Inr (case find (key_match h lKey rk l) right of None \<Rightarrow> Undefined | Some r \<Rightarrow> r)"
    using single_amend [OF lg rg] find_key_match_append [OF l rs]
    by (simp add: Q_single_def)
  show ?thesis
  proof (cases "find (key_match h lKey rk l) right")
    case None
    have "la < length (?g @ [[]])" and "length ?g < length (?g @ [[]])" using la by auto
    from mixin_records [OF this]
    obtain ps where mix0: "Q_mixin (?g @ [[]]) (Ref la) (Ref (length ?g))
                            = Inr (Ref (length (?g @ [[]])), (?g @ [[]]) @ [ps])"
      and other0: "\<forall>j. j \<noteq> proto_key \<longrightarrow>
                    map_of ps j = (map_of ((?g @ [[]]) ! la) ++ map_of ((?g @ [[]]) ! length ?g)) j"
      and none0: "(map_of ((?g @ [[]]) ! la) ++ map_of ((?g @ [[]]) ! length ?g)) proto_key = None
                    \<longrightarrow> map_of ps proto_key = None"
      by blast
    have cells: "(?g @ [[]]) ! la = h ! la" "(?g @ [[]]) ! length ?g = []"
      using la by (simp_all add: nth_append)
    have mix: "Q_mixin (?g @ [[]]) (Ref la) (Ref (length ?g))
                 = Inr (Ref (Suc (length ?g)), h @ e @ [[], ps])"
      using mix0 by simp
    have step: "amend_step right lKey rk l i ?g = Inr (Ref (Suc (length ?g)), h @ e @ [[], ps])"
      using None single mix la by (simp add: amend_step_def alloc_def)
    have nth: "(h @ e @ [[], ps]) ! Suc (length ?g) = ps"
      using nth_two_after [of h e] by simp
    have "holds_entries ps (merged h lKey rk right l)"
      using None la other0 none0 unfolding cells
      by (simp add: holds_entries_def merged_def props_of_def)
    with step nth show ?thesis
      by (intro exI [of _ "Suc (length ?g)"] exI [of _ "[[], ps]"]) simp
  next
    case (Some r)
    then have "is_record h r" using rs find_record by blast
    then obtain ra where ra: "r = Ref ra" "ra < length h" by (cases r) auto
    have "la < length ?g" and "ra < length ?g" using la ra by auto
    from mixin_records [OF this]
    obtain ps where mix0: "Q_mixin ?g (Ref la) (Ref ra) = Inr (Ref (length ?g), ?g @ [ps])"
      and other0: "\<forall>j. j \<noteq> proto_key \<longrightarrow> map_of ps j = (map_of (?g ! la) ++ map_of (?g ! ra)) j"
      and none0: "(map_of (?g ! la) ++ map_of (?g ! ra)) proto_key = None
                    \<longrightarrow> map_of ps proto_key = None"
      by blast
    have cells: "?g ! la = h ! la" "?g ! ra = h ! ra"
      using la ra by (simp_all add: nth_append)
    have mix: "Q_mixin ?g (Ref la) (Ref ra) = Inr (Ref (length ?g), h @ e @ [ps])"
      using mix0 by simp
    have step: "amend_step right lKey rk l i ?g = Inr (Ref (length ?g), h @ e @ [ps])"
      using Some single mix la ra by (simp add: amend_step_def)
    have nth: "(h @ e @ [ps]) ! length ?g = ps"
      using nth_one_after [of h e] by simp
    have "holds_entries ps (merged h lKey rk right l)"
      using Some la ra other0 none0 unfolding cells
      by (simp add: holds_entries_def merged_def props_of_def)
    with step nth show ?thesis
      by (intro exI [of _ "length ?g"] exI [of _ "[ps]"]) simp
  qed
qed

lemma map_loop_amend:
  assumes ls: "\<forall>l\<in>set left. is_record h l" and rs: "\<forall>r\<in>set right. is_record h r"
  shows "\<exists>res e'. map_loop (amend_step right lKey rk) left i (h @ e) = Inr (res, h @ e @ e')
           \<and> length res = length left
           \<and> (\<forall>j<length left. \<exists>a. res ! j = Ref a \<and> length (h @ e) \<le> a \<and> a < length (h @ e @ e')
                 \<and> holds_entries ((h @ e @ e') ! a) (merged h lKey rk right (left ! j)))"
  using ls
proof (induction left arbitrary: e i)
  case Nil
  show ?case by (intro exI [of _ "[]"]) simp
next
  case (Cons l left)
  from Cons.prems have l: "is_record h l" and ls': "\<forall>l\<in>set left. is_record h l" by auto
  from amend_step_records [OF l rs, of lKey rk i e]
  obtain a e1 where step: "amend_step right lKey rk l i (h @ e) = Inr (Ref a, h @ e @ e1)"
    and a: "length (h @ e) \<le> a" "a < length (h @ e @ e1)"
    and ma: "holds_entries ((h @ e @ e1) ! a) (merged h lKey rk right l)" by blast
  from Cons.IH [OF ls', of "Suc i" "e @ e1"]
  obtain res e2 where rest: "map_loop (amend_step right lKey rk) left (Suc i) (h @ e @ e1) = Inr (res, h @ e @ e1 @ e2)"
    and len: "length res = length left"
    and each: "\<forall>j<length left. \<exists>b. res ! j = Ref b \<and> length (h @ e @ e1) \<le> b \<and> b < length (h @ e @ e1 @ e2)
                 \<and> holds_entries ((h @ e @ e1 @ e2) ! b) (merged h lKey rk right (left ! j))"
    by auto
  have run: "map_loop (amend_step right lKey rk) (l # left) i (h @ e) = Inr (Ref a # res, h @ e @ (e1 @ e2))"
    using step rest by simp
  have keep: "(h @ e @ e1 @ e2) ! a = (h @ e @ e1) ! a"
    using a(2) nth_keep [of a h "e @ e1" e2] by simp
  have "\<exists>b. (Ref a # res) ! j = Ref b \<and> length (h @ e) \<le> b \<and> b < length (h @ e @ (e1 @ e2))
                 \<and> holds_entries ((h @ e @ (e1 @ e2)) ! b) (merged h lKey rk right ((l # left) ! j))"
    if "j < length (l # left)" for j
  proof (cases j)
    case 0
    then show ?thesis using a ma keep by auto
  next
    case (Suc n)
    with that have "n < length left" by simp
    with each obtain b where "res ! n = Ref b" "length (h @ e @ e1) \<le> b" "b < length (h @ e @ e1 @ e2)"
      "holds_entries ((h @ e @ e1 @ e2) ! b) (merged h lKey rk right (left ! n))" by blast
    then show ?thesis using Suc by auto
  qed
  with run len show ?case
    by (intro exI [of _ "Ref a # res"] exI [of _ "e1 @ e2"]) simp
qed

lemma holds_entries_restrict:
  assumes "holds_entries ps m"
  shows "map_of ps |` (- {proto_key}) = m |` (- {proto_key}) \<and> (m proto_key = None \<longrightarrow> map_of ps = m)"
proof -
  from assms have other: "\<forall>j. j \<noteq> proto_key \<longrightarrow> map_of ps j = m j"
    and none: "m proto_key = None \<longrightarrow> map_of ps proto_key = None"
    by (simp_all add: holds_entries_def)
  have a: "map_of ps |` (- {proto_key}) = m |` (- {proto_key})"
    using other by (rule restrict_eqI)
  have b: "m proto_key = None \<longrightarrow> map_of ps = m"
  proof
    assume n: "m proto_key = None"
    with none have "map_of ps proto_key = None" by blast
    with n have "map_of ps proto_key = m proto_key" by (simp only:)
    with other show "map_of ps = m" by (rule whole_eqI)
  qed
  show ?thesis by (intro conjI a b)
qed

text \<open>
  Claim C2, as amended: \<^verbatim>\<open>rKey\<close> stands for \<^verbatim>\<open>lKey\<close> when it is omitted or the
  empty string. For sequences of records of the store, \<^verbatim>\<open>amend\<close> returns a sequence
  as long as \<^verbatim>\<open>left\<close>; its \<open>j\<close>-th element is a new record which, under every name
  other than \<^verbatim>\<open>__proto__\<close>, holds the entries of the \<open>j\<close>-th left element
  overridden by those of the first right element whose \<open>rk\<close> field loosely equals its
  \<open>lKey\<close> field, or those of the left element alone when no right element matches; it
  holds them under every name when none of the records merged owns an entry named
  \<^verbatim>\<open>__proto__\<close>. The records the store held are unchanged.
\<close>

theorem amend_left_outer_join:
  assumes "\<forall>l\<in>set left. is_record h l" and "\<forall>r\<in>set right. is_record h r"
    and "(rKey = Undefined \<or> rKey = Str []) \<and> rk = lKey \<or> rKey = Str rk \<and> rk \<noteq> []"
  shows "\<exists>res h'. Q_amend left right lKey rKey h = Inr (res, h')
           \<and> length res = length left
           \<and> take (length h) h' = h
           \<and> (\<forall>j<length left. \<exists>a. res ! j = Ref a \<and> length h \<le> a \<and> a < length h'
                 \<and> map_of (h' ! a) |` (- {proto_key})
                     = merged h lKey rk right (left ! j) |` (- {proto_key})
                 \<and> (merged h lKey rk right (left ! j) proto_key = None \<longrightarrow>
                       map_of (h' ! a) = merged h lKey rk right (left ! j)))"
proof -
  have rk: "(if truthy rKey then to_str rKey else lKey) = rk"
    using assms(3) by auto
  from map_loop_amend [OF assms(1,2), of lKey rk 0 "[]"]
  obtain res e' where run: "map_loop (amend_step right lKey rk) left 0 h = Inr (res, h @ e')"
    and len: "length res = length left"
    and each: "\<forall>j<length left. \<exists>a. res ! j = Ref a \<and> length h \<le> a \<and> a < length (h @ e')
                 \<and> holds_entries ((h @ e') ! a) (merged h lKey rk right (left ! j))"
    by auto
  have "\<exists>a. res ! j = Ref a \<and> length h \<le> a \<and> a < length (h @ e')
          \<and> map_of ((h @ e') ! a) |` (- {proto_key})
                = merged h lKey rk right (left ! j) |` (- {proto_key})
          \<and> (merged h lKey rk right (left ! j) proto_key = None \<longrightarrow>
                map_of ((h @ e') ! a) = merged h lKey rk right (left ! j))"
    if "j < length left" for j
  proof -
    from each that obtain a where a: "res ! j = Ref a" "length h \<le> a" "a < length (h @ e')"
      and fit: "holds_entries ((h @ e') ! a) (merged h lKey rk right (left ! j))" by blast
    from holds_entries_restrict [OF fit]
    have r1: "map_of ((h @ e') ! a) |` (- {proto_key})
                = merged h lKey rk right (left ! j) |` (- {proto_key})"
      and r2: "merged h lKey rk right (left ! j) proto_key = None \<longrightarrow>
                map_of ((h @ e') ! a) = merged h lKey rk right (left ! j)"
      by simp_all
    show ?thesis by (intro exI [of _ a] conjI a r1 r2)
  qed
  with run len show ?thesis
    by (intro exI [of _ res] exI [of _ "h @ e'"]) (simp add: Q_amend_def Q_map_def rk)
qed

lemmas amend_eval =
  Q_amend_def Q_map_def amend_step_def Q_single_def amend_pred_def loose_eq_def mixin_eval

theorem amend_left_outer_join_witness:
  "Q_amend [Ref 0, Ref 1] [Ref 2] ''id'' Undefined h_join =
     Inr ([Ref 3, Ref 5],
          h_join @ [[(''id'', Num (Fin 1)), (''b'', Num (Fin 2)), (''d'', Num (Fin 4))],
                    [],
                    [(''id'', Num (Fin 2)), (''b'', Num (Fin 2))]])"
  using amend_left_outer_join [of "[Ref 0, Ref 1]" h_join "[Ref 2]" Undefined "''id''" "''id''"]
  by (simp add: h_join_def amend_eval)

text \<open>
  Claim C2 as it is stated fails when the caller passes the empty string as
  \<^verbatim>\<open>rKey\<close>: the right record matches the left one on its field \<^verbatim>\<open>""\<close>, so the
  claim's result has the entry \<^verbatim>\<open>d\<close>; the code joins on \<^verbatim>\<open>id\<close> instead, finds no
  match and returns a copy of the left record. It fails too on a left record that owns
  an entry named \<^verbatim>\<open>__proto__\<close>: with no right element to match, the result is not
  the left record entry for entry, for the copy is made by assignment and the entry goes
  to the inherited setter.
\<close>

theorem amend_blank_right_key_counterexample:
  "key_match h_blank ''id'' [] (Ref 0) (Ref 1)
   \<and> merged h_blank ''id'' [] [Ref 1] (Ref 0) ''d'' = Some (Num (Fin 4))
   \<and> Q_amend [Ref 0] [Ref 1] ''id'' (Str []) h_blank =
        Inr ([Ref 3], h_blank @ [[], [(''id'', Num (Fin 1))]])
   \<and> lookup (h_proto ! 0) ''__proto__'' = Num (Fin 1)
   \<and> Q_amend [Ref 0] [] ''id'' Undefined h_proto =
        Inr ([Ref 3], h_proto @ [[], [(''id'', Num (Fin 1))]])"
  by (simp add: h_blank_def h_proto_def amend_eval key_match_def merged_def)

subsection \<open>\<^verbatim>\<open>Q.group\<close>\<close>

text \<open>
  Claim C6 says that each key of the result holds exactly the input elements with that
  key. The code appends with \<^verbatim>\<open>acc[key].concat(elt)\<close>, and \<^verbatim>\<open>concat\<close>
  spreads an array argument: grouping the two arrays \<^verbatim>\<open>[1,2]\<close> and \<^verbatim>\<open>[3,4]\<close>
  by their length gives \<^verbatim>\<open>{"2": [[1,2], 3, 4]}\<close>; the second element is not in its
  bucket, its elements are.
\<close>

theorem group_spreads_array_elements:
  "Q_group h (KField ''length'')
     [Arr 0 [Num (Fin 1), Num (Fin 2)], Arr 1 [Num (Fin 3), Num (Fin 4)]]
   = Inr [(''2'', [Arr 0 [Num (Fin 1), Num (Fin 2)], Num (Fin 3), Num (Fin 4)])]"
  by (simp add: Q_group_def group_step_def Q_field_def arr_prop_def show_int_def show_nat.simps
        digit_char_def)

subsection \<open>The ordering operator on keys of one class\<close>

lemma of_char_nat_eq: "(of_char c :: nat) = of_char d \<Longrightarrow> c = d"
  by (metis char_of_char)

lemma str_lt_asym: "str_lt s t \<Longrightarrow> \<not> str_lt t s"
  by (induction s t rule: str_lt.induct) (auto split: if_splits)

lemma str_lt_total: "\<not> str_lt s t \<Longrightarrow> \<not> str_lt t s \<Longrightarrow> s = t"
  by (induction s t rule: str_lt.induct) (auto split: if_splits dest: of_char_nat_eq)

lemma str_lt_trans: "str_lt s t \<Longrightarrow> str_lt t u \<Longrightarrow> str_lt s u"
proof (induction s t arbitrary: u rule: str_lt.induct)
  case 1
  then show ?case by simp
next
  case (2 d t)
  then show ?case by (cases u) auto
next
  case (3 c s)
  then show ?case by simp
next
  case (4 c s d t)
  then show ?case by (cases u) (auto split: if_splits)
qed

lemma str_lt_negtrans:
  assumes "\<not> str_lt b a" and "\<not> str_lt c b"
  shows "\<not> str_lt c a"
proof
  assume ca: "str_lt c a"
  show False
  proof (cases "str_lt a b")
    case True
    with ca have "str_lt c b" by (rule str_lt_trans)
    with assms(2) show False by simp
  next
    case False
    from False assms(1) have "a = b" by (rule str_lt_total)
    with ca assms(2) show False by simp
  qed
qed

lemma num_lt_asym: "num_lt m n \<Longrightarrow> \<not> num_lt n m"
  by (cases m; cases n) auto

lemma num_lt_negtrans:
  "l \<noteq> NaN \<Longrightarrow> m \<noteq> NaN \<Longrightarrow> n \<noteq> NaN \<Longrightarrow> \<not> num_lt m l \<Longrightarrow> \<not> num_lt n m \<Longrightarrow> \<not> num_lt n l"
  by (cases l; cases m; cases n) auto

lemma js_lt_num [simp]: "js_lt (Num m) (Num n) = num_lt m n"
  by (simp add: js_lt_def)

lemma js_lt_text [simp]: "js_lt (Str s) (Str t) = str_lt s t"
  by (simp add: js_lt_def)

lemma is_number_obtain: "is_number a \<Longrightarrow> \<exists>n. a = Num n \<and> n \<noteq> NaN"
  by (cases a) auto

lemma is_text_obtain: "is_text a \<Longrightarrow> \<exists>s. a = Str s"
  by (cases a) auto

lemma js_lt_asym_class:
  assumes "is_number a \<and> is_number b \<or> is_text a \<and> is_text b" and "js_lt a b"
  shows "\<not> js_lt b a"
proof -
  from assms(1) show ?thesis
  proof
    assume nums: "is_number a \<and> is_number b"
    obtain m where m: "a = Num m" using nums is_number_obtain [of a] by auto
    obtain n where n: "b = Num n" using nums is_number_obtain [of b] by auto
    from assms(2) show ?thesis unfolding m n by (simp add: num_lt_asym)
  next
    assume strs: "is_text a \<and> is_text b"
    obtain s where s: "a = Str s" using strs is_text_obtain [of a] by auto
    obtain t where t: "b = Str t" using strs is_text_obtain [of b] by auto
    from assms(2) show ?thesis unfolding s t by (simp add: str_lt_asym)
  qed
qed

lemma js_lt_negtrans_class:
  assumes "is_number a \<and> is_number b \<and> is_number c \<or> is_text a \<and> is_text b \<and> is_text c"
    and "\<not> js_lt b a" and "\<not> js_lt c b"
  shows "\<not> js_lt c a"
proof -
  from assms(1) show ?thesis
  proof
    assume nums: "is_number a \<and> is_number b \<and> is_number c"
    obtain l where l: "a = Num l" "l \<noteq> NaN" using nums is_number_obtain [of a] by auto
    obtain m where m: "b = Num m" "m \<noteq> NaN" using nums is_number_obtain [of b] by auto
    obtain n where n: "c = Num n" "n \<noteq> NaN" using nums is_number_obtain [of c] by auto
    from assms(2,3) show ?thesis
      unfolding l(1) m(1) n(1) using num_lt_negtrans [OF l(2) m(2) n(2)] by simp
  next
    assume strs: "is_text a \<and> is_text b \<and> is_text c"
    obtain s where s: "a = Str s" using strs is_text_obtain [of a] by auto
    obtain t where t: "b = Str t" using strs is_text_obtain [of b] by auto
    obtain u where u: "c = Str u" using strs is_text_obtain [of c] by auto
    from assms(2,3) show ?thesis unfolding s t u using str_lt_negtrans [of t s u] by simp
  qed
qed

lemma num_lt_total: "m \<noteq> NaN \<Longrightarrow> n \<noteq> NaN \<Longrightarrow> \<not> num_lt m n \<Longrightarrow> \<not> num_lt n m \<Longrightarrow> m = n"
  by (cases m; cases n) auto

lemma js_lt_total_class:
  assumes "is_number a \<and> is_number b \<or> is_text a \<and> is_text b"
    and "\<not> js_lt a b" and "\<not> js_lt b a"
  shows "a = b"
proof -
  from assms(1) show ?thesis
  proof
    assume nums: "is_number a \<and> is_number b"
    obtain m where m: "a = Num m" "m \<noteq> NaN" using nums is_number_obtain [of a] by auto
    obtain n where n: "b = Num n" "n \<noteq> NaN" using nums is_number_obtain [of b] by auto
    from assms(2,3) show ?thesis
      unfolding m(1) n(1) using num_lt_total [OF m(2) n(2)] by simp
  next
    assume strs: "is_text a \<and> is_text b"
    obtain s where s: "a = Str s" using strs is_text_obtain [of a] by auto
    obtain t where t: "b = Str t" using strs is_text_obtain [of b] by auto
    from assms(2,3) show ?thesis unfolding s t using str_lt_total [of s t] by simp
  qed
qed

subsection \<open>An insertion sort conforms\<close>

lemma mset_insert_cmp: "mset (insert_cmp cmp x ys) = add_mset x (mset ys)"
  by (induction ys) auto

lemma mset_array_sort: "mset (array_sort cmp xs) = mset xs"
  by (induction xs) (auto simp: array_sort_def mset_insert_cmp)

lemma set_insert_cmp: "set (insert_cmp cmp x ys) = insert x (set ys)"
  by (induction ys) auto

lemma set_array_sort: "set (array_sort cmp xs) = set xs"
  by (metis mset_array_sort set_mset_mset)

lemma filter_insert_cmp:
  "\<forall>y\<in>set ys. P x \<and> P y \<longrightarrow> cmp x y \<le> 0 \<Longrightarrow>
   filter P (insert_cmp cmp x ys) = (if P x then x # filter P ys else filter P ys)"
  by (induction ys) auto

lemma filter_array_sort:
  "\<forall>x\<in>set xs. \<forall>y\<in>set xs. P x \<and> P y \<longrightarrow> cmp x y \<le> 0 \<Longrightarrow>
   filter P (array_sort cmp xs) = filter P xs"
proof (induction xs)
  case Nil
  show ?case by (simp add: array_sort_def)
next
  case (Cons x xs)
  have unfold: "array_sort cmp (x # xs) = insert_cmp cmp x (array_sort cmp xs)"
    by (simp add: array_sort_def)
  have "\<forall>y\<in>set (array_sort cmp xs). P x \<and> P y \<longrightarrow> cmp x y \<le> 0"
    using Cons.prems by (simp add: set_array_sort)
  then have "filter P (insert_cmp cmp x (array_sort cmp xs)) =
               (if P x then x # filter P (array_sort cmp xs) else filter P (array_sort cmp xs))"
    by (rule filter_insert_cmp)
  moreover have "filter P (array_sort cmp xs) = filter P xs"
    using Cons.prems by (intro Cons.IH) auto
  ultimately show ?case by (simp add: unfold)
qed

lemma sorted_insert_cmp:
  assumes link: "\<And>a b. a \<in> S \<Longrightarrow> b \<in> S \<Longrightarrow> (cmp a b \<le> 0 \<longrightarrow> le a b) \<and> (\<not> cmp a b \<le> 0 \<longrightarrow> le b a)"
    and trans: "\<And>a b c. a \<in> S \<Longrightarrow> b \<in> S \<Longrightarrow> c \<in> S \<Longrightarrow> le a b \<Longrightarrow> le b c \<Longrightarrow> le a c"
  shows "x \<in> S \<Longrightarrow> set ys \<subseteq> S \<Longrightarrow> sorted_wrt le ys \<Longrightarrow> sorted_wrt le (insert_cmp cmp x ys)"
proof (induction ys)
  case Nil
  show ?case by simp
next
  case (Cons y ys)
  show ?case
  proof (cases "cmp x y \<le> 0")
    case True
    then have xy: "le x y" using link Cons.prems by auto
    have "le x z" if "z \<in> set ys" for z
    proof -
      have "le y z" using Cons.prems(3) that by simp
      with xy show ?thesis using trans [of x y z] Cons.prems that by auto
    qed
    with True xy Cons.prems show ?thesis by auto
  next
    case False
    then have "le y x" using link Cons.prems by auto
    moreover have "sorted_wrt le (insert_cmp cmp x ys)"
      using Cons.prems by (intro Cons.IH) auto
    ultimately show ?thesis using False Cons.prems by (auto simp: set_insert_cmp)
  qed
qed

lemma sorted_array_sort:
  assumes link: "\<And>a b. a \<in> S \<Longrightarrow> b \<in> S \<Longrightarrow> (cmp a b \<le> 0 \<longrightarrow> le a b) \<and> (\<not> cmp a b \<le> 0 \<longrightarrow> le b a)"
    and trans: "\<And>a b c. a \<in> S \<Longrightarrow> b \<in> S \<Longrightarrow> c \<in> S \<Longrightarrow> le a b \<Longrightarrow> le b c \<Longrightarrow> le a c"
  shows "set xs \<subseteq> S \<Longrightarrow> sorted_wrt le (array_sort cmp xs)"
proof (induction xs)
  case Nil
  show ?case by (simp add: array_sort_def)
next
  case (Cons x xs)
  have x: "x \<in> S" and sub: "set (array_sort cmp xs) \<subseteq> S"
    and srt: "sorted_wrt le (array_sort cmp xs)"
    using Cons by (auto simp: set_array_sort)
  have "sorted_wrt le (insert_cmp cmp x (array_sort cmp xs))"
    by (rule sorted_insert_cmp [where S = S and cmp = cmp and le = le, OF link trans x sub srt])
  then show ?case by (simp add: array_sort_def)
qed

lemma consistent_flip:
  "consistent cmp S \<Longrightarrow> a \<in> S \<Longrightarrow> b \<in> S \<Longrightarrow> (0 < cmp a b) = (cmp b a < 0)"
  unfolding consistent_def by blast

lemma consistent_trans:
  "consistent cmp S \<Longrightarrow> a \<in> S \<Longrightarrow> b \<in> S \<Longrightarrow> c \<in> S \<Longrightarrow> cmp a b \<le> 0 \<Longrightarrow> cmp b c \<le> 0
     \<Longrightarrow> cmp a c \<le> 0"
  unfolding consistent_def by blast

lemma array_sort_ordered:
  assumes c: "consistent cmp (set xs)"
  shows "sorted_wrt (\<lambda>a b. cmp a b \<le> 0) (array_sort cmp xs)"
proof -
  have link: "(cmp a b \<le> 0 \<longrightarrow> cmp a b \<le> 0) \<and> (\<not> cmp a b \<le> 0 \<longrightarrow> cmp b a \<le> 0)"
    if "a \<in> set xs" "b \<in> set xs" for a b
    using consistent_flip [OF c that] by auto
  have trans: "cmp a d \<le> 0"
    if "a \<in> set xs" "b \<in> set xs" "d \<in> set xs" "cmp a b \<le> 0" "cmp b d \<le> 0" for a b d
    using c that by (rule consistent_trans)
  have sub: "set xs \<subseteq> set xs" by simp
  show ?thesis
    by (rule sorted_array_sort
          [where S = "set xs" and cmp = cmp and le = "\<lambda>a b. cmp a b \<le> 0", OF link trans sub])
qed

lemma array_sort_stable:
  assumes c: "consistent cmp (set xs)" and a: "a \<in> set xs"
  shows "filter (\<lambda>b. cmp a b = 0) (array_sort cmp xs) = filter (\<lambda>b. cmp a b = 0) xs"
proof (rule filter_array_sort, intro ballI impI)
  fix x y assume x: "x \<in> set xs" and y: "y \<in> set xs"
    and eq: "cmp a x = 0 \<and> cmp a y = 0"
  have "(0 < cmp x a) = (cmp a x < 0)" using c x a by (rule consistent_flip)
  with eq have "cmp x a \<le> 0" by simp
  moreover from eq have "cmp a y \<le> 0" by simp
  ultimately show "cmp x y \<le> 0" using consistent_trans [OF c x a y] by simp
qed

lemma array_sort_conforms: "conforming array_sort"
  unfolding conforming_def
  by (intro allI conjI impI ballI mset_array_sort array_sort_ordered array_sort_stable)

lemma reversing_sort_conforms: "conforming reversing_sort"
  unfolding conforming_def reversing_sort_def
  by (simp add: mset_array_sort array_sort_ordered array_sort_stable)

subsection \<open>\<^verbatim>\<open>Q.sort\<close>\<close>

lemma map_loop_keyValue:
  "\<forall>x\<in>set xs. \<exists>k. sort_fn f h x = Inr k \<Longrightarrow>
   map_loop (\<lambda>item i h. case sort_fn f h item of
                          Inl e \<Rightarrow> Inl e
                        | Inr k \<Rightarrow> Inr (\<lparr>key = k, val = item\<rparr>, h)) xs i h
     = Inr (map (decorate h f) xs, h)"
  by (induction xs arbitrary: i) (auto simp: decorate_def key_of_def)

lemma map_loop_pluck_val:
  "map_loop (\<lambda>x i h. Inr (kv_field ''val'' x, h)) kvs i h = Inr (map val kvs, h)"
  by (induction kvs arbitrary: i) (auto simp: kv_field_def)

lemma sort_result:
  "\<forall>x\<in>set xs. \<exists>k. sort_fn f h x = Inr k \<Longrightarrow>
   Q_sort hs h f xs = Inr (map val (hs compareKeys (map (decorate h f) xs)))"
  by (simp add: Q_sort_def keyValue_def Q_pluck_def Q_map_def map_loop_keyValue map_loop_pluck_val)

lemma val_decorate [simp]: "val (decorate h f x) = x"
  by (simp add: decorate_def)

lemma key_decorate [simp]: "key (decorate h f x) = key_of h f x"
  by (simp add: decorate_def)

lemma conforming_mset: "conforming hs \<Longrightarrow> mset (hs cmp xs) = mset xs"
  unfolding conforming_def by blast

lemma conforming_sorted:
  "conforming hs \<Longrightarrow> consistent cmp (set xs) \<Longrightarrow> sorted_wrt (\<lambda>a b. cmp a b \<le> 0) (hs cmp xs)"
  unfolding conforming_def by blast

lemma conforming_stable:
  "conforming hs \<Longrightarrow> consistent cmp (set xs) \<Longrightarrow> a \<in> set xs \<Longrightarrow>
   filter (\<lambda>b. cmp a b = 0) (hs cmp xs) = filter (\<lambda>b. cmp a b = 0) xs"
  unfolding conforming_def by blast

lemma conforming_set: "conforming hs \<Longrightarrow> set (hs cmp xs) = set xs"
  by (metis conforming_mset set_mset_mset)

lemma sort_image_mset:
  "conforming hs \<Longrightarrow>
   image_mset val (mset (hs compareKeys (map (decorate h f) xs))) = mset xs"
  by (simp add: conforming_mset image_mset.compositionality comp_def)

lemma sort_set:
  "conforming hs \<Longrightarrow> set (map val (hs compareKeys (map (decorate h f) xs))) = set xs"
  by (simp add: conforming_set image_image)

lemma compareKeys_same_key: "key a = key b \<Longrightarrow> compareKeys a b = 0"
  by (simp add: compareKeys_def js_gt_def js_lt_irrefl)

lemma compareKeys_le_iff:
  assumes "is_number (key a) \<and> is_number (key b) \<or> is_text (key a) \<and> is_text (key b)"
  shows "(compareKeys a b \<le> 0) = (\<not> js_lt (key b) (key a))"
  using js_lt_asym_class [OF assms] by (auto simp: compareKeys_def js_gt_def)

lemma compareKeys_zero_iff:
  assumes "is_number (key a) \<and> is_number (key b) \<or> is_text (key a) \<and> is_text (key b)"
  shows "(compareKeys a b = 0) = (key a = key b)"
proof
  assume "compareKeys a b = 0"
  then have "\<not> js_lt (key a) (key b)" and "\<not> js_lt (key b) (key a)"
    by (auto simp: compareKeys_def js_gt_def split: if_splits)
  with assms show "key a = key b" by (rule js_lt_total_class)
next
  assume "key a = key b"
  then show "compareKeys a b = 0" by (rule compareKeys_same_key)
qed

lemma same_class_pair:
  "same_class (key ` S) \<Longrightarrow> a \<in> S \<Longrightarrow> b \<in> S \<Longrightarrow>
   is_number (key a) \<and> is_number (key b) \<or> is_text (key a) \<and> is_text (key b)"
  by (auto simp: same_class_def)

lemma same_class_triple:
  "same_class (key ` S) \<Longrightarrow> a \<in> S \<Longrightarrow> b \<in> S \<Longrightarrow> c \<in> S \<Longrightarrow>
   is_number (key a) \<and> is_number (key b) \<and> is_number (key c)
   \<or> is_text (key a) \<and> is_text (key b) \<and> is_text (key c)"
  by (auto simp: same_class_def)

lemma compareKeys_consistent:
  assumes cls: "same_class (key ` S)"
  shows "consistent compareKeys S"
  unfolding consistent_def
proof (intro conjI ballI impI)
  fix a b assume a: "a \<in> S" and b: "b \<in> S"
  have "js_lt (key b) (key a) \<Longrightarrow> \<not> js_lt (key a) (key b)"
    using js_lt_asym_class [OF same_class_pair [OF cls b a]] .
  then show "(0 < compareKeys a b) = (compareKeys b a < 0)"
    by (auto simp: compareKeys_def js_gt_def)
next
  fix a b c assume a: "a \<in> S" and b: "b \<in> S" and c: "c \<in> S"
    and ab: "compareKeys a b \<le> 0" and bc: "compareKeys b c \<le> 0"
  from ab have 1: "\<not> js_lt (key b) (key a)"
    using compareKeys_le_iff [OF same_class_pair [OF cls a b]] by simp
  from bc have 2: "\<not> js_lt (key c) (key b)"
    using compareKeys_le_iff [OF same_class_pair [OF cls b c]] by simp
  have "\<not> js_lt (key c) (key a)"
    using js_lt_negtrans_class [OF same_class_triple [OF cls a b c] 1 2] .
  then show "compareKeys a c \<le> 0"
    using compareKeys_le_iff [OF same_class_pair [OF cls a c]] by simp
qed

lemma decorated_class:
  "same_class (key_of h f ` set xs) \<Longrightarrow> same_class (key ` set (map (decorate h f) xs))"
  by (simp add: image_image)

lemma sort_ascending:
  assumes hs: "conforming hs" and cls: "same_class (key_of h f ` set xs)"
  shows "sorted_wrt (\<lambda>a b. \<not> js_lt (key_of h f b) (key_of h f a))
           (map val (hs compareKeys (map (decorate h f) xs)))"
proof -
  let ?D = "map (decorate h f) xs"
  let ?L = "hs compareKeys ?D"
  have dcls: "same_class (key ` set ?D)" using cls by (rule decorated_class)
  have "consistent compareKeys (set ?D)" using dcls by (rule compareKeys_consistent)
  with hs have srt: "sorted_wrt (\<lambda>a b. compareKeys a b \<le> 0) ?L"
    by (rule conforming_sorted)
  have setL: "set ?L = set ?D" using hs by (rule conforming_set)
  have "sorted_wrt (\<lambda>a b. \<not> js_lt (key_of h f (val b)) (key_of h f (val a))) ?L"
    using srt
  proof (rule sorted_wrt_mono_rel [rotated])
    fix a b assume a: "a \<in> set ?L" and b: "b \<in> set ?L" and le: "compareKeys a b \<le> 0"
    from a b setL have aD: "a \<in> set ?D" and bD: "b \<in> set ?D" by auto
    from le have "\<not> js_lt (key b) (key a)"
      using compareKeys_le_iff [OF same_class_pair [OF dcls aD bD]] by simp
    moreover from aD bD have "key_of h f (val a) = key a" and "key_of h f (val b) = key b"
      by auto
    ultimately show "\<not> js_lt (key_of h f (val b)) (key_of h f (val a))" by simp
  qed
  then show ?thesis by (simp add: sorted_wrt_map)
qed

lemma sort_stable:
  assumes hs: "conforming hs" and cls: "same_class (key_of h f ` set xs)"
  shows "filter (\<lambda>x. key_of h f x = k) (map val (hs compareKeys (map (decorate h f) xs)))
           = filter (\<lambda>x. key_of h f x = k) xs"
proof -
  let ?D = "map (decorate h f) xs"
  let ?L = "hs compareKeys ?D"
  have dcls: "same_class (key ` set ?D)" using cls by (rule decorated_class)
  have cons: "consistent compareKeys (set ?D)" using dcls by (rule compareKeys_consistent)
  have setL: "set ?L = set ?D" using hs by (rule conforming_set)
  have inL: "key_of h f (val a) = key a" if "a \<in> set ?L" for a
    using that setL by auto
  have kept: "filter (\<lambda>a. key a = k) ?L = filter (\<lambda>a. key a = k) ?D"
  proof (cases "\<exists>a\<in>set ?D. key a = k")
    case True
    then obtain a where a: "a \<in> set ?D" and ka: "key a = k" by blast
    have same: "(key b = k) = (compareKeys a b = 0)" if "b \<in> set ?D" for b
      using compareKeys_zero_iff [OF same_class_pair [OF dcls a that]] ka by auto
    have "filter (\<lambda>b. key b = k) ?L = filter (\<lambda>b. compareKeys a b = 0) ?L"
      using same setL by (intro filter_cong) auto
    also have "\<dots> = filter (\<lambda>b. compareKeys a b = 0) ?D"
      using hs cons a by (rule conforming_stable)
    also have "\<dots> = filter (\<lambda>b. key b = k) ?D"
      using same by (intro filter_cong) auto
    finally show ?thesis .
  next
    case False
    then have "filter (\<lambda>a. key a = k) ?D = []" by (auto simp: filter_empty_conv)
    moreover from False setL have "filter (\<lambda>a. key a = k) ?L = []"
      by (auto simp: filter_empty_conv)
    ultimately show ?thesis by simp
  qed
  have "filter (\<lambda>x. key_of h f x = k) (map val ?L) = map val (filter (\<lambda>a. key_of h f (val a) = k) ?L)"
    by (simp add: filter_map comp_def)
  also have "filter (\<lambda>a. key_of h f (val a) = k) ?L = filter (\<lambda>a. key a = k) ?L"
    using inL by (intro filter_cong) auto
  also have "filter (\<lambda>a. key a = k) ?L = filter (\<lambda>a. key a = k) ?D" by (rule kept)
  also have "map val (filter (\<lambda>a. key a = k) ?D) = filter (\<lambda>x. key_of h f x = k) xs"
    by (simp add: filter_map comp_def)
  finally show ?thesis .
qed

text \<open>
  Claim C3, as amended. For every conforming sort of the host and every key function
  that returns a key for each element, \<^verbatim>\<open>sort\<close> returns a rearrangement of the
  sequence. When the keys are of one class (all numbers other than \<open>NaN\<close>, or all
  strings), it is stable, the elements with one and the same key keep their order, and
  ascending: no element has a key less than the key of an element before it.
\<close>

theorem sort_stable_ascending:
  assumes "conforming hs" and "\<forall>x\<in>set xs. \<exists>k. sort_fn f h x = Inr k"
  shows "\<exists>ys. Q_sort hs h f xs = Inr ys
           \<and> mset ys = mset xs
           \<and> (same_class (key_of h f ` set xs) \<longrightarrow>
                (\<forall>k. filter (\<lambda>x. key_of h f x = k) ys = filter (\<lambda>x. key_of h f x = k) xs)
                \<and> sorted_wrt (\<lambda>a b. \<not> js_lt (key_of h f b) (key_of h f a)) ys)"
  using assms by (simp add: sort_result sort_image_mset sort_stable sort_ascending)

lemmas sort_eval =
  Q_sort_def keyValue_def Q_pluck_def Q_map_def Q_field_def array_sort_def compareKeys_def
  js_gt_def js_lt_def kv_field_def props_of_def lookup_def

theorem sort_stable_ascending_witness:
  "Q_sort array_sort h_age (KField ''age'') [Ref 0, Ref 1, Ref 2, Ref 3]
     = Inr [Ref 1, Ref 3, Ref 0, Ref 2]"
  using sort_stable_ascending
          [OF array_sort_conforms, of "[Ref 0, Ref 1, Ref 2, Ref 3]" "KField ''age''" h_age]
  by (simp add: h_age_def sort_eval)

lemma cycle_facts:
  "js_lt (Str ''11'') (Str ''9'')" "js_lt (Str ''9'') (Num (Fin 10))" "js_lt (Num (Fin 10)) (Str ''11'')"
  by (simp_all add: js_lt_def str_to_num_def trim_def is_space_def all_digits_def is_digit_def
        digits_val_def)

lemma cyclic_keys_never_ascending:
  assumes "mset ys = mset [Str ''11'', Str ''9'', Num (Fin 10)]"
  shows "\<not> sorted_wrt (\<lambda>a b. \<not> js_lt b a) ys"
proof
  assume asc: "sorted_wrt (\<lambda>a b. \<not> js_lt b a) ys"
  from assms have "ys \<noteq> []" by auto
  then obtain x rest where ys: "ys = x # rest" by (cases ys) auto
  from asc ys have later: "\<forall>w\<in>set rest. \<not> js_lt w x" by simp
  from assms ys have m: "add_mset x (mset rest) = {#Str ''11'', Str ''9'', Num (Fin 10)#}"
    by simp
  then have "x \<in># {#Str ''11'', Str ''9'', Num (Fin 10)#}"
    by (metis union_single_eq_member)
  then consider "x = Str ''11''" | "x = Str ''9''" | "x = Num (Fin 10)" by auto
  then show False
  proof cases
    case 1
    with m have "mset rest = {#Str ''9'', Num (Fin 10)#}" by simp
    then have "Num (Fin 10) \<in> set rest" by (metis set_mset_mset union_single_eq_member add_mset_commute)
    with later 1 cycle_facts(3) show False by blast
  next
    case 2
    with m have "mset rest = {#Str ''11'', Num (Fin 10)#}" by (simp add: add_mset_commute)
    then have "Str ''11'' \<in> set rest" by (metis set_mset_mset union_single_eq_member)
    with later 2 cycle_facts(1) show False by blast
  next
    case 3
    with m have "mset rest = {#Str ''11'', Str ''9''#}"
      by (metis add_mset_commute add_mset_remove_trivial)
    then have "Str ''9'' \<in> set rest" by (metis set_mset_mset union_single_eq_member add_mset_commute)
    with later 3 cycle_facts(2) show False by blast
  qed
qed

lemma key_of_identity: "key_of h (KFun (\<lambda>h v. Inr v)) x = x"
  by (simp add: key_of_def)

lemma mixed_keys:
  "key_of h_mixed (KField ''k'') (Ref 0) = Num (Fin 10)"
  "key_of h_mixed (KField ''k'') (Ref 1) = Str ''9''"
  "key_of h_mixed (KField ''k'') (Ref 2) = Str ''11''"
  "key_of h_mixed (KField ''k'') (Ref 3) = Num (Fin 10)"
  by (simp_all add: key_of_def Q_field_def h_mixed_def props_of_def lookup_def eval_nat_numeral)

lemma mixed_not_consistent:
  "\<not> consistent compareKeys (set (map (decorate h_mixed (KField ''k'')) [Ref 0, Ref 1, Ref 2, Ref 3]))"
proof
  let ?d = "decorate h_mixed (KField ''k'')"
  assume c: "consistent compareKeys (set (map ?d [Ref 0, Ref 1, Ref 2, Ref 3]))"
  have ab: "compareKeys (?d (Ref 1)) (?d (Ref 0)) \<le> 0"
    unfolding compareKeys_def key_decorate mixed_keys by (simp add: cycle_facts)
  have bc: "compareKeys (?d (Ref 0)) (?d (Ref 2)) \<le> 0"
    unfolding compareKeys_def key_decorate mixed_keys by (simp add: cycle_facts)
  have ac: "\<not> compareKeys (?d (Ref 1)) (?d (Ref 2)) \<le> 0"
    unfolding compareKeys_def key_decorate mixed_keys by (simp add: js_gt_def js_lt_def)
  have "compareKeys (?d (Ref 1)) (?d (Ref 2)) \<le> 0"
    using c _ _ _ ab bc by (rule consistent_trans) simp_all
  with ac show False by simp
qed

lemma mixed_reversed:
  "Q_sort reversing_sort h_mixed (KField ''k'') [Ref 0, Ref 1, Ref 2, Ref 3]
     = Inr [Ref 3, Ref 2, Ref 1, Ref 0]"
proof -
  let ?xs = "[Ref 0, Ref 1, Ref 2, Ref 3]"
  have "\<forall>x\<in>set ?xs. \<exists>k. sort_fn (KField ''k'') h_mixed x = Inr k"
    by (simp add: Q_field_def h_mixed_def)
  then have "Q_sort reversing_sort h_mixed (KField ''k'') ?xs
               = Inr (map val (reversing_sort compareKeys (map (decorate h_mixed (KField ''k'')) ?xs)))"
    by (rule sort_result)
  also have "reversing_sort compareKeys (map (decorate h_mixed (KField ''k'')) ?xs)
               = rev (map (decorate h_mixed (KField ''k'')) ?xs)"
    using mixed_not_consistent by (simp only: reversing_sort_def if_False)
  finally show ?thesis by simp
qed

lemma no_host_ascending:
  "\<not> (\<exists>hs ys. conforming hs
        \<and> Q_sort hs [] (KFun (\<lambda>h v. Inr v)) [Str ''11'', Str ''9'', Num (Fin 10)] = Inr ys
        \<and> sorted_wrt (\<lambda>a b. \<not> js_lt (key_of [] (KFun (\<lambda>h v. Inr v)) b)
                                     (key_of [] (KFun (\<lambda>h v. Inr v)) a)) ys)"
proof
  let ?xs = "[Str ''11'', Str ''9'', Num (Fin 10)]"
  let ?f = "KFun (\<lambda>h v. Inr v)"
  assume "\<exists>hs ys. conforming hs \<and> Q_sort hs [] ?f ?xs = Inr ys
            \<and> sorted_wrt (\<lambda>a b. \<not> js_lt (key_of [] ?f b) (key_of [] ?f a)) ys"
  then obtain hs ys where hs: "conforming hs" and run: "Q_sort hs [] ?f ?xs = Inr ys"
    and asc: "sorted_wrt (\<lambda>a b. \<not> js_lt (key_of [] ?f b) (key_of [] ?f a)) ys" by blast
  have total: "\<forall>x\<in>set ?xs. \<exists>k. sort_fn ?f [] x = Inr k" by simp
  have "Q_sort hs [] ?f ?xs = Inr (map val (hs compareKeys (map (decorate [] ?f) ?xs)))"
    using total by (rule sort_result)
  with run have ys: "ys = map val (hs compareKeys (map (decorate [] ?f) ?xs))" by simp
  have "mset ys = mset ?xs"
    unfolding ys using sort_image_mset [OF hs, of "[]" ?f ?xs] by simp
  moreover from asc have "sorted_wrt (\<lambda>a b. \<not> js_lt b a) ys"
    by (simp add: key_of_identity)
  ultimately show False using cyclic_keys_never_ascending by blast
qed

text \<open>
  Claim C3 as it is stated, for every sequence and key specifier, fails. On the keys
  \<^verbatim>\<open>"11"\<close>, \<^verbatim>\<open>"9"\<close> and \<^verbatim>\<open>10\<close> the operator \<^verbatim>\<open><\<close> runs in a circle
  (\<^verbatim>\<open>"11" < "9"\<close> as strings, \<^verbatim>\<open>"9" < 10\<close> and \<^verbatim>\<open>10 < "11"\<close> as numbers):
  whatever the host's sort does, \<^verbatim>\<open>sort(x => x, ["11", "9", 10])\<close> returns a
  rearrangement of the three, and no rearrangement of them is ascending. On such keys the
  comparator is not consistent and the order is the host's choice: on four records with
  the keys \<^verbatim>\<open>10\<close>, \<^verbatim>\<open>"9"\<close>, \<^verbatim>\<open>"11"\<close>, \<^verbatim>\<open>10\<close> each compares less than
  the one before it, and a conforming sort that reverses them returns the two records
  with the key \<^verbatim>\<open>10\<close> in the other order.
\<close>

theorem sort_unordered_keys_counterexample:
  "js_lt (Str ''11'') (Str ''9'') \<and> js_lt (Str ''9'') (Num (Fin 10))
   \<and> js_lt (Num (Fin 10)) (Str ''11'')
   \<and> \<not> (\<exists>hs ys. conforming hs
          \<and> Q_sort hs [] (KFun (\<lambda>h v. Inr v)) [Str ''11'', Str ''9'', Num (Fin 10)] = Inr ys
          \<and> sorted_wrt (\<lambda>a b. \<not> js_lt (key_of [] (KFun (\<lambda>h v. Inr v)) b)
                                       (key_of [] (KFun (\<lambda>h v. Inr v)) a)) ys)
   \<and> conforming (reversing_sort :: (kv \<Rightarrow> kv \<Rightarrow> int) \<Rightarrow> kv list \<Rightarrow> kv list)
   \<and> key_of h_mixed (KField ''k'') (Ref 0) = key_of h_mixed (KField ''k'') (Ref 3)
   \<and> Q_sort reversing_sort h_mixed (KField ''k'') [Ref 0, Ref 1, Ref 2, Ref 3]
       = Inr [Ref 3, Ref 2, Ref 1, Ref 0]"
  using cycle_facts no_host_ascending reversing_sort_conforms mixed_reversed
  by (simp only: mixed_keys simp_thms)

lemma negate_number: "n \<noteq> NaN \<Longrightarrow> num_mul (Fin (- 1)) n \<noteq> NaN"
  by (cases n) auto

lemma negate_order:
  "m \<noteq> NaN \<Longrightarrow> n \<noteq> NaN \<Longrightarrow>
   num_lt (num_mul (Fin (- 1)) m) (num_mul (Fin (- 1)) n) = num_lt n m"
  by (cases m; cases n) auto

text \<open>
  Claim C9: with the field name \<^verbatim>\<open>-p\<close>, \<^verbatim>\<open>sort\<close> orders by the negated number
  in the field \<^verbatim>\<open>p\<close>; on a sequence whose elements all hold a number (other than
  \<open>NaN\<close>) in that field, the output is, for every conforming sort of the host, a
  rearrangement in descending order of the field: no element holds less than an element
  after it.
\<close>

theorem sort_descending_marker:
  assumes "conforming hs"
    and "\<forall>x\<in>set xs. \<exists>n. get_prop h x p = Inr (Num n) \<and> n \<noteq> NaN"
  shows "\<exists>ys. Q_sort hs h (KField (CHR ''-'' # p)) xs = Inr ys
           \<and> mset ys = mset xs
           \<and> (\<forall>x\<in>set xs. key_of h (KField (CHR ''-'' # p)) x
                              = Num (num_mul (Fin (- 1)) (field_num h p x)))
           \<and> sorted_wrt (\<lambda>a b. \<not> num_lt (field_num h p a) (field_num h p b)) ys"
proof -
  let ?f = "KField (CHR ''-'' # p)"
  let ?ys = "map val (hs compareKeys (map (decorate h ?f) xs))"
  have num: "\<exists>n. get_prop h x p = Inr (Num n) \<and> n \<noteq> NaN \<and> field_num h p x = n"
    if "x \<in> set xs" for x
  proof -
    from assms(2) that obtain n where "get_prop h x p = Inr (Num n)" "n \<noteq> NaN" by blast
    then show ?thesis by (simp add: field_num_def)
  qed
  have keys: "key_of h ?f x = Num (num_mul (Fin (- 1)) (field_num h p x))" if "x \<in> set xs" for x
    using num [OF that] by (auto simp: key_of_def)
  have total: "\<forall>x\<in>set xs. \<exists>k. sort_fn ?f h x = Inr k"
  proof
    fix x assume "x \<in> set xs"
    with num obtain n where "get_prop h x p = Inr (Num n)" by blast
    then show "\<exists>k. sort_fn ?f h x = Inr k" by simp
  qed
  have run: "Q_sort hs h ?f xs = Inr ?ys" using total by (rule sort_result)
  have "is_number (key_of h ?f x)" if "x \<in> set xs" for x
    using num [OF that] keys [OF that] by (auto simp: negate_number)
  then have "same_class (key_of h ?f ` set xs)"
    by (auto simp: same_class_def)
  with assms(1) have asc: "sorted_wrt (\<lambda>a b. \<not> js_lt (key_of h ?f b) (key_of h ?f a)) ?ys"
    by (rule sort_ascending)
  have set_ys: "set ?ys = set xs"
    using assms(1) by (rule sort_set)
  have "sorted_wrt (\<lambda>a b. \<not> num_lt (field_num h p a) (field_num h p b)) ?ys"
    using asc
  proof (rule sorted_wrt_mono_rel [rotated])
    fix a b assume a: "a \<in> set ?ys" and b: "b \<in> set ?ys"
      and le: "\<not> js_lt (key_of h ?f b) (key_of h ?f a)"
    from a b set_ys have ax: "a \<in> set xs" and bx: "b \<in> set xs" by auto
    from num [OF ax] num [OF bx] le show "\<not> num_lt (field_num h p a) (field_num h p b)"
      unfolding keys [OF ax] keys [OF bx] by (auto simp: negate_order)
  qed
  with run keys show ?thesis by (simp add: sort_image_mset [OF assms(1)])
qed

theorem sort_descending_marker_witness:
  "Q_sort array_sort h_age (KField ''-age'') [Ref 0, Ref 1, Ref 2, Ref 3]
     = Inr [Ref 2, Ref 0, Ref 1, Ref 3]"
  using sort_descending_marker
          [OF array_sort_conforms, of "[Ref 0, Ref 1, Ref 2, Ref 3]" h_age "''age''"]
  by (simp add: h_age_def sort_eval)

subsection \<open>\<^verbatim>\<open>Q.lay\<close>\<close>

lemma ulp_small: "n < 2 ^ 53 \<Longrightarrow> ulp n = 1"
  by (subst ulp.simps) simp

lemma ulp_first: "ulp (2 ^ 53) = 2"
  by (subst ulp.simps) (simp add: ulp_small)

lemma in_range:
  assumes "\<bar>x\<bar> \<le> (2::int) ^ 53"
  shows "\<not> 2 ^ 1024 \<le> x" and "\<not> x \<le> - (2 ^ 1024)"
proof -
  have "(2::int) ^ 53 < 2 ^ 1024" by (rule power_strict_increasing) simp_all
  with assms have "\<bar>x\<bar> < 2 ^ 1024" by (rule le_less_trans)
  then show "\<not> 2 ^ 1024 \<le> x" and "\<not> x \<le> - (2 ^ 1024)" by (simp_all only: abs_less_iff) linarith+
qed

lemma round_double_exact:
  assumes "\<bar>x\<bar> \<le> 2 ^ 53"
  shows "round_double x = Fin x"
proof -
  have y: "(let u = int (ulp (nat \<bar>x\<bar>)); q = x div u; r = x mod u
            in if 2 * r < u \<or> (2 * r = u \<and> even q) then q * u else (q + 1) * u) = x"
  proof (cases "\<bar>x\<bar> < 2 ^ 53")
    case True
    then have "nat \<bar>x\<bar> < 2 ^ 53" by simp
    then have "ulp (nat \<bar>x\<bar>) = 1" by (rule ulp_small)
    then show ?thesis by simp
  next
    case False
    with assms have x: "\<bar>x\<bar> = 2 ^ 53" by simp
    then have "nat \<bar>x\<bar> = 2 ^ 53" by simp
    then have u: "ulp (nat \<bar>x\<bar>) = 2" by (simp only: ulp_first)
    from x have "x = 2 ^ 53 \<or> x = - (2 ^ 53)" by (simp add: abs_if split: if_splits)
    then show ?thesis by (auto simp: u Let_def)
  qed
  have "round_double x = (if 2 ^ 1024 \<le> x then PosInf else if x \<le> - (2 ^ 1024) then NegInf else Fin x)"
    unfolding round_double_def using y by (simp only: Let_def)
  with in_range [OF assms] show ?thesis by (simp only: if_False)
qed











lemma lay_examples:
  "Q_lay (Fin 5) None None = Some (map Fin [0, 1, 2, 3, 4])"
  "Q_lay (Fin 53) (Some (Fin 50)) None = Some (map Fin [50, 51, 52])"
  "Q_lay (Fin 4) (Some (Fin 8)) (Some (Fin (- 1))) = Some (map Fin [8, 7, 6, 5])"
  "Q_lay (Fin 5) (Some (Fin 0)) (Some (Fin 0)) = Some []"
  by (simp_all add: Q_lay_def lay_up.simps lay_down.simps round_double_exact)

lemma lay_start_not_a_number: "Q_lay en (Some NaN) stp = Q_lay en (Some (Fin 0)) stp"
  by (simp add: Q_lay_def)








end
